theory Spec2Isabelle
  imports Main "HOL-Library.Char_ord" "HOL-Library.List_Lexorder"
begin

section \<open>Substitution expansion (formatQueries, runThroughAllOptionsAndPush)\<close>

type_synonym Query = string

text \<open>
  \<^verbatim>\<open>StringToVector\<close> is \<^verbatim>\<open>std::map<String, std::vector<String>>\<close>. The model is the
  sequence of (name, values) pairs the map's iterator walks through, that is, the
  entries in ascending key order with pairwise distinct keys.
\<close>

type_synonym StringToVector = "(string \<times> string list) list"

definition map_ordered :: "StringToVector \<Rightarrow> bool" where
  "map_ordered m = sorted_wrt (<) (map fst m)"

text \<open>\<^verbatim>\<open>std::string::find(mask)\<close>: position of the first occurrence, \<open>None\<close> for \<^verbatim>\<open>npos\<close>.\<close>

fun find_str :: "string \<Rightarrow> string \<Rightarrow> nat option" where
  "find_str [] msk = (if msk = [] then Some 0 else None)"
| "find_str (c # cs) msk =
     (if take (length msk) (c # cs) = msk then Some 0
      else map_option Suc (find_str cs msk))"

text \<open>\<^verbatim>\<open>query.replace(pos, len, value)\<close>.\<close>

definition replace_str :: "string \<Rightarrow> nat \<Rightarrow> nat \<Rightarrow> string \<Rightarrow> string" where
  "replace_str query pos len val = take pos query @ val @ drop (pos + len) query"

text \<open>
  The inner \<^verbatim>\<open>while (substr_pos != String::npos)\<close> loop of runThroughAllOptionsAndPush:
  find the mask, replace it, look again from the start of the string. Nothing bounds
  the number of rounds (a value that contains its own mask is found again for ever),
  so the loop is a partial function and \<open>None\<close> stands for a loop that never exits.
\<close>

partial_function (option) substitute_loop :: "string \<Rightarrow> string \<Rightarrow> string \<Rightarrow> string option" where
  "substitute_loop msk val query =
     (case find_str query msk of
        None \<Rightarrow> Some query
      | Some pos \<Rightarrow> substitute_loop msk val (replace_str query pos (length msk) val))"

declare substitute_loop.simps [code]

definition substitution_mask :: "string \<Rightarrow> string" where
  "substitution_mask name = ''{'' @ name @ ''}''"

text \<open>
  runThroughAllOptionsAndPush with its \<^verbatim>\<open>out_queries\<close> accumulator; \<open>push_values\<close> is its
  \<^verbatim>\<open>for (const String & value : substitutions_left->second)\<close> loop.
\<close>

fun runThroughAllOptionsAndPush ::
    "StringToVector \<Rightarrow> string \<Rightarrow> string list \<Rightarrow> string list option"
  and push_values ::
    "string \<Rightarrow> string list \<Rightarrow> StringToVector \<Rightarrow> string \<Rightarrow> string list \<Rightarrow> string list option"
where
  "runThroughAllOptionsAndPush [] template_query out_queries =
     Some (out_queries @ [template_query])"
| "runThroughAllOptionsAndPush ((name, vals) # rest) template_query out_queries =
     (if find_str template_query (substitution_mask name) = None
      then runThroughAllOptionsAndPush rest template_query out_queries
      else push_values (substitution_mask name) vals rest template_query out_queries)"
| "push_values msk [] rest template_query out_queries = Some out_queries"
| "push_values msk (val # vals) rest template_query out_queries =
     (case substitute_loop msk val template_query of
        None \<Rightarrow> None
      | Some query \<Rightarrow>
          (case runThroughAllOptionsAndPush rest query out_queries of
             None \<Rightarrow> None
           | Some out_queries' \<Rightarrow> push_values msk vals rest template_query out_queries'))"

definition formatQueries :: "Query \<Rightarrow> StringToVector \<Rightarrow> Query list option" where
  "formatQueries query substitutions_to_generate =
     runThroughAllOptionsAndPush substitutions_to_generate query []"


text \<open>
  The quantities the specification speaks of: whether a variable's placeholder token
  occurs in a template, and the product of the value-list lengths of the variables
  whose token occurs (a variable without an occurrence counts as 1).
\<close>

definition occurs :: "string \<Rightarrow> string \<Rightarrow> bool" where
  "occurs name template = (find_str template (substitution_mask name) \<noteq> None)"

definition expected_count :: "StringToVector \<Rightarrow> string \<Rightarrow> nat" where
  "expected_count vars template =
     prod_list (map (\<lambda>(name, vals). if occurs name template then length vals else 1) vars)"

text \<open>
  No substitution step creates or removes an occurrence of the token of a variable
  that is still to be processed: along every branch of the expansion, the variables
  left see the same tokens in the substituted query as in the template before.
\<close>

fun token_stable :: "StringToVector \<Rightarrow> string \<Rightarrow> bool" where
  "token_stable [] template = True"
| "token_stable ((name, vals) # rest) template =
     (if \<not> occurs name template then token_stable rest template
      else (\<forall>val \<in> set vals.
              case substitute_loop (substitution_mask name) val template of
                None \<Rightarrow> False
              | Some query \<Rightarrow>
                  (\<forall>(n, vs) \<in> set rest. occurs n query = occurs n template)
                  \<and> token_stable rest query))"

definition values_brace_free :: "StringToVector \<Rightarrow> bool" where
  "values_brace_free vars =
     (\<forall>(name, vals) \<in> set vars. \<forall>val \<in> set vals. CHR ''{'' \<notin> set val)"

text \<open>Joining the results of the branches; one branch that never returns makes the whole \<open>None\<close>.\<close>

definition concat_opt :: "'a list option list \<Rightarrow> 'a list option" where
  "concat_opt xs = map_option concat (those xs)"

definition braces :: "string \<Rightarrow> nat" where
  "braces s = length (filter (\<lambda>c. c = CHR ''{'') s)"


section \<open>Test configurations and their selection (removeConfigurationsIf)\<close>

text \<open>
  The fields of a test's XML configuration that the launcher reads. A field that the
  code tests with \<^verbatim>\<open>has\<close> is an option; \<open>cfg_query\<close> holds the values of the
  \<^verbatim>\<open>query\<close> elements (\<^verbatim>\<open>has("query")\<close> is a non-empty list); \<open>cfg_query_file\<close> is the
  file name with the queries read from that file (the file is taken to be readable);
  \<open>cfg_main_metric\<close> holds the child keys of the \<^verbatim>\<open>main_metric\<close> element. The
  \<^verbatim>\<open>settings\<close> block only tunes the connection and is left out.
\<close>

datatype stop_kind =
    RowsRead | BytesReadUncompressed | TotalTime | MinTimeNotChangingFor
  | MaxSpeedNotChangingFor | AverageSpeedNotChangingFor | Iterations

record XMLConfiguration =
  cfg_name :: "string option"
  cfg_tags :: "string list"
  cfg_query :: "Query list"
  cfg_query_file :: "(string \<times> Query list) option"
  cfg_substitutions :: "(string option \<times> string list) list option"
  cfg_type :: "string option"
  cfg_times_to_run :: "nat option"
  cfg_stop_conditions :: "(stop_kind \<times> nat) list option"
  cfg_metrics :: "string list"
  cfg_main_metric :: "string list option"

datatype FilterType = Tag | Name | Name_regexp

text \<open>
  The \<^verbatim>\<open>checker\<close> lambda of removeConfigurationsIf. \<open>regex_search subject pattern\<close>
  stands for \<^verbatim>\<open>std::regex_search\<close>; \<^verbatim>\<open>config->getString("name", "")\<close> is the name or
  the empty string.
\<close>

definition checker ::
    "(string \<Rightarrow> string \<Rightarrow> bool) \<Rightarrow> FilterType \<Rightarrow> string list \<Rightarrow> bool \<Rightarrow> XMLConfiguration \<Rightarrow> bool" where
  "checker regex_search filter_type vals leave config =
     (if vals = [] then False
      else
        let remove_or_not = False;
            remove_or_not =
              (if filter_type = Tag
               then (if \<exists>config_tag \<in> set (cfg_tags config). config_tag \<in> set vals
                     then True else remove_or_not)
               else remove_or_not);
            remove_or_not =
              (if filter_type = Name
               then (case cfg_name config of None \<Rightarrow> [] | Some n \<Rightarrow> n) \<in> set vals
               else remove_or_not);
            remove_or_not =
              (if filter_type = Name_regexp
               then (case cfg_name config of
                       None \<Rightarrow> False
                     | Some config_name \<Rightarrow> list_ex (regex_search config_name) vals)
               else remove_or_not)
        in if leave then \<not> remove_or_not else remove_or_not)"

definition removeConfigurationsIf ::
    "(string \<Rightarrow> string \<Rightarrow> bool) \<Rightarrow> XMLConfiguration list \<Rightarrow> FilterType \<Rightarrow> string list \<Rightarrow> bool
      \<Rightarrow> XMLConfiguration list" where
  "removeConfigurationsIf regex_search configs filter_type vals leave =
     filter (\<lambda>config. \<not> checker regex_search filter_type vals leave config) configs"

record Filters =
  tests_tags :: "string list"
  skip_tags :: "string list"
  tests_names :: "string list"
  skip_names :: "string list"
  tests_names_regexp :: "string list"
  skip_names_regexp :: "string list"

definition filterConfigurations ::
    "(string \<Rightarrow> string \<Rightarrow> bool) \<Rightarrow> Filters \<Rightarrow> XMLConfiguration list \<Rightarrow> XMLConfiguration list" where
  "filterConfigurations regex_search fl tests_configurations =
     (let c = removeConfigurationsIf regex_search tests_configurations Tag (tests_tags fl) True;
          c = removeConfigurationsIf regex_search c Name (tests_names fl) True;
          c = removeConfigurationsIf regex_search c Name_regexp (tests_names_regexp fl) True;
          c = removeConfigurationsIf regex_search c Tag (skip_tags fl) False;
          c = removeConfigurationsIf regex_search c Name (skip_names fl) False
      in removeConfigurationsIf regex_search c Name_regexp (skip_names_regexp fl) False)"

text \<open>
  What the claim about nameless specifications says: whether \<open>config\<close> matches the
  filter, that is, the value of \<^verbatim>\<open>remove_or_not\<close> before \<^verbatim>\<open>leave\<close> reverses it.
\<close>

definition matches_filter ::
    "(string \<Rightarrow> string \<Rightarrow> bool) \<Rightarrow> FilterType \<Rightarrow> string list \<Rightarrow> XMLConfiguration \<Rightarrow> bool" where
  "matches_filter regex_search filter_type vals config =
     checker regex_search filter_type vals False config"

section \<open>Stop conditions and statistics of one run\<close>

text \<open>
  Modelled from the spec: the class TestStopConditions, declared in TestStopConditions.h
  and StopConditionsSet.h, which this development does not have. It is a set of
  configured predicates, each a kind with its threshold and a flag that latches once a
  reported value has reached the threshold.
\<close>

type_synonym TestStopConditions = "(stop_kind \<times> nat \<times> bool) list"

text \<open>
  Modelled from the spec: \<^verbatim>\<open>TestStopConditions::loadFromConfig\<close>, one predicate per
  threshold of the stop-condition template, none of them met.
\<close>

definition loadFromConfig :: "(stop_kind \<times> nat) list \<Rightarrow> TestStopConditions" where
  "loadFromConfig conf = map (\<lambda>(k, t). (k, t, False)) conf"

text \<open>
  Modelled from the spec: the methods \<^verbatim>\<open>reportRowsRead\<close>, \<^verbatim>\<open>reportIterations\<close> and their
  like, as one function of the kind: the predicates of that kind whose threshold the
  value has reached are met from now on.
\<close>

definition report_value :: "stop_kind \<Rightarrow> nat \<Rightarrow> TestStopConditions \<Rightarrow> TestStopConditions" where
  "report_value kind v sc = map (\<lambda>(k, t, f). (k, t, f \<or> (k = kind \<and> t \<le> v))) sc"

text \<open>
  Modelled from the spec: \<^verbatim>\<open>TestStopConditions::areFulfilled\<close>, true iff any configured
  predicate is met.
\<close>

definition areFulfilled :: "TestStopConditions \<Rightarrow> bool" where
  "areFulfilled sc = list_ex (\<lambda>(k, t, f). f) sc"

text \<open>Modelled from the spec: \<^verbatim>\<open>TestStopConditions::reset\<close>, back to the start of a run.\<close>

definition reset :: "TestStopConditions \<Rightarrow> TestStopConditions" where
  "reset sc = map (\<lambda>(k, t, f). (k, t, False)) sc"

text \<open>
  Modelled from the spec: the class TestStats, declared in TestStats.h, which this
  development does not have; without its stopwatches, its sampler and its
  floating-point speeds and times, so that \<^verbatim>\<open>setTotalTime\<close> has nothing to change.
\<close>

record TestStats =
  ready :: bool
  exception :: string
  last_query_was_cancelled :: bool
  stat_queries :: nat
  total_rows_read :: nat
  total_bytes_read :: nat
  last_query_rows_read :: nat
  last_query_bytes_read :: nat

text \<open>Modelled from the spec: a TestStats as its constructor leaves it.\<close>

definition TestStats_default :: TestStats where
  "TestStats_default =
     \<lparr>ready = False, exception = [], last_query_was_cancelled = False, stat_queries = 0,
      total_rows_read = 0, total_bytes_read = 0, last_query_rows_read = 0,
      last_query_bytes_read = 0\<rparr>"

text \<open>Modelled from the spec: \<^verbatim>\<open>TestStats::add\<close>, on the cumulative counters.\<close>

definition stats_add :: "nat \<Rightarrow> nat \<Rightarrow> TestStats \<Rightarrow> TestStats" where
  "stats_add rows_read_inc bytes_read_inc st =
     st\<lparr>total_rows_read := total_rows_read st + rows_read_inc,
        total_bytes_read := total_bytes_read st + bytes_read_inc,
        last_query_rows_read := last_query_rows_read st + rows_read_inc,
        last_query_bytes_read := last_query_bytes_read st + bytes_read_inc\<rparr>"

text \<open>Modelled from the spec: \<^verbatim>\<open>TestStats::updateQueryInfo\<close>, which counts a finished query.\<close>

definition updateQueryInfo :: "TestStats \<Rightarrow> TestStats" where
  "updateQueryInfo st = st\<lparr>stat_queries := Suc (stat_queries st)\<rparr>"

text \<open>
  Modelled from the spec: \<^verbatim>\<open>TestStats::clear\<close>, which resets the counters for a new
  run; the spec names no reset of the \<open>ready\<close> flag or of the latched exception
  message, and they stay. No statement below depends on that choice.
\<close>

definition stats_clear :: "TestStats \<Rightarrow> TestStats" where
  "stats_clear st =
     st\<lparr>last_query_was_cancelled := False, stat_queries := 0, total_rows_read := 0,
        total_bytes_read := 0, last_query_rows_read := 0, last_query_bytes_read := 0\<rparr>"

section \<open>The launcher's state and its surroundings\<close>

datatype ExecutionType = Loop | Once

datatype error_code = NOT_IMPLEMENTED | LOGICAL_ERROR | BAD_ARGUMENTS | FILE_DOESNT_EXIST

text \<open>
  \<open>Exception message code\<close> is a \<^verbatim>\<open>DB::Exception\<close>; \<open>NotFoundException key\<close> is what
  Poco's \<^verbatim>\<open>getString(key)\<close> without a default throws when the key is missing.
\<close>

datatype error = Exception string error_code | NotFoundException string

text \<open>
  What the launcher calls and cannot see into is recorded in a log: every query handed
  to the server and every iteration number reported to a stop-condition set.
\<close>

datatype event = Invoke Query | ReportIterations nat

text \<open>
  The members of class PerformanceTest that runTest and its helpers read and write,
  with the log of calls (\<open>trace\<close>) and the number of times the interrupt listener
  has been asked (\<open>polls\<close>). \<^verbatim>\<open>size_t\<close> counters are natural numbers: with
  \<^verbatim>\<open>times_to_run\<close> an \<^verbatim>\<open>unsigned\<close> and fewer than \<open>2^32\<close> queries no product wraps.
  Nothing in the class ever assigns \<^verbatim>\<open>substitutions_maps\<close>, which is empty throughout.
\<close>

record PerformanceTest =
  test_name :: string
  queries :: "Query list"
  substitutions :: "string \<Rightarrow> StringToVector"
  substitutions_maps :: "(string \<times> string) list list"
  gotSIGINT :: bool
  stop_conditions_by_run :: "TestStopConditions list"
  main_metric :: string
  lite_output :: bool
  exec_type :: ExecutionType
  times_to_run :: nat
  statistics_by_run :: "TestStats list"
  trace :: "event list"
  polls :: nat

text \<open>
  One progress packet: the rows and bytes it reports and the readings (in ms) of the
  four stopwatches that checkFulfilledConditionsAndUpdate passes on.
\<close>

record Progress =
  rows :: nat
  bytes :: nat
  watch_ms :: nat
  min_time_watch_ms :: nat
  max_rows_speed_watch_ms :: nat
  avg_rows_speed_watch_ms :: nat

text \<open>
  What the server does with one query: the progress packets it sends and, if the query
  fails, the \<^verbatim>\<open>what()\<close> and \<^verbatim>\<open>displayText()\<close> of the \<^verbatim>\<open>DB::Exception\<close> the stream throws.
\<close>

record Response =
  progress :: "Progress list"
  failure :: "(string \<times> string) option"

text \<open>
  The surroundings: the server's answer to the n-th query sent, the answer of
  \<^verbatim>\<open>interrupt_listener.check()\<close> at the n-th time it is asked, checkPreconditions, and
  \<^verbatim>\<open>TestStats::getStatisticByName\<close>.
\<close>

record Surroundings =
  stream_response :: "nat \<Rightarrow> Query \<Rightarrow> Response"
  interrupt_check :: "nat \<Rightarrow> bool"
  checkPreconditions :: "XMLConfiguration \<Rightarrow> bool"
  getStatisticByName :: "TestStats \<Rightarrow> string \<Rightarrow> string"

text \<open>
  The object as its constructor leaves it. The constructor does not set \<^verbatim>\<open>exec_type\<close>;
  runTest assigns it before it is read.
\<close>

definition initial :: "bool \<Rightarrow> PerformanceTest" where
  "initial lite =
     \<lparr>test_name = [], queries = [], substitutions = (\<lambda>_. []), substitutions_maps = [],
      gotSIGINT = False, stop_conditions_by_run = [], main_metric = [],
      lite_output = lite, exec_type = Loop, times_to_run = 1,
      statistics_by_run = [], trace = [], polls = 0\<rparr>"

definition statistics_upd :: "nat \<Rightarrow> (TestStats \<Rightarrow> TestStats) \<Rightarrow> PerformanceTest \<Rightarrow> PerformanceTest" where
  "statistics_upd run_index f s =
     s\<lparr>statistics_by_run := (statistics_by_run s)[run_index := f (statistics_by_run s ! run_index)]\<rparr>"

definition stop_conditions_upd ::
    "nat \<Rightarrow> (TestStopConditions \<Rightarrow> TestStopConditions) \<Rightarrow> PerformanceTest \<Rightarrow> PerformanceTest" where
  "stop_conditions_upd run_index f s =
     s\<lparr>stop_conditions_by_run :=
          (stop_conditions_by_run s)[run_index := f (stop_conditions_by_run s ! run_index)]\<rparr>"

definition invocations :: "PerformanceTest \<Rightarrow> nat" where
  "invocations s = length (filter (\<lambda>e. case e of Invoke q \<Rightarrow> True | _ \<Rightarrow> False) (trace s))"

definition interrupt_listener_check :: "Surroundings \<Rightarrow> PerformanceTest \<Rightarrow> bool \<times> PerformanceTest" where
  "interrupt_listener_check env s = (interrupt_check env (polls s), s\<lparr>polls := Suc (polls s)\<rparr>)"

section \<open>Running one query (execute, checkFulfilledConditionsAndUpdate)\<close>

text \<open>
  \<open>statistics\<close> and \<open>stop_conditions\<close> of the source are references to the entries
  \<open>run_index\<close> of the two vectors. The result says whether the stream was cancelled.
\<close>

definition checkFulfilledConditionsAndUpdate ::
    "Surroundings \<Rightarrow> Progress \<Rightarrow> nat \<Rightarrow> PerformanceTest \<Rightarrow> bool \<times> PerformanceTest" where
  "checkFulfilledConditionsAndUpdate env pr run_index s =
     (let s = statistics_upd run_index (stats_add (rows pr) (bytes pr)) s;
          statistics = statistics_by_run s ! run_index;
          s = stop_conditions_upd run_index
                (\<lambda>sc. report_value AverageSpeedNotChangingFor (avg_rows_speed_watch_ms pr)
                  (report_value MaxSpeedNotChangingFor (max_rows_speed_watch_ms pr)
                  (report_value MinTimeNotChangingFor (min_time_watch_ms pr)
                  (report_value TotalTime (watch_ms pr)
                  (report_value BytesReadUncompressed (total_bytes_read statistics)
                  (report_value RowsRead (total_rows_read statistics) sc)))))) s;
          fulfilled = areFulfilled (stop_conditions_by_run s ! run_index);
          s = (if fulfilled
               then statistics_upd run_index (\<lambda>st. st\<lparr>last_query_was_cancelled := True\<rparr>) s
               else s);
          (interrupted, s) = interrupt_listener_check env s;
          s = (if interrupted
               then statistics_upd run_index (\<lambda>st. st\<lparr>last_query_was_cancelled := True\<rparr>)
                      (s\<lparr>gotSIGINT := True\<rparr>)
               else s)
      in (fulfilled \<or> interrupted, s))"

text \<open>The stream's reading loop: a cancelled stream delivers no further progress.\<close>

fun read_stream :: "Surroundings \<Rightarrow> Progress list \<Rightarrow> nat \<Rightarrow> PerformanceTest \<Rightarrow> PerformanceTest" where
  "read_stream env [] run_index s = s"
| "read_stream env (pr # prs) run_index s =
     (case checkFulfilledConditionsAndUpdate env pr run_index s of
        (cancelled, s') \<Rightarrow> if cancelled then s' else read_stream env prs run_index s')"

text \<open>
  execute: the first component of the result is the text of the \<^verbatim>\<open>DB::Exception\<close> that
  leaves the function, if one does.
\<close>

definition execute ::
    "Surroundings \<Rightarrow> Query \<Rightarrow> nat \<Rightarrow> PerformanceTest \<Rightarrow> (string \<times> string) option \<times> PerformanceTest" where
  "execute env query run_index s =
     (let response = stream_response env (invocations s) query;
          s = statistics_upd run_index
                (\<lambda>st. st\<lparr>last_query_was_cancelled := False, last_query_rows_read := 0,
                          last_query_bytes_read := 0\<rparr>) s;
          s = s\<lparr>trace := trace s @ [Invoke query]\<rparr>;
          s = read_stream env (progress response) run_index s
      in case failure response of
           Some e \<Rightarrow> (Some e, s)
         | None \<Rightarrow>
             (None, statistics_upd run_index
                      (\<lambda>st. if \<not> last_query_was_cancelled st then updateQueryInfo st else st) s))"

section \<open>Running the queries of one launch (runQueries)\<close>

text \<open>
  The \<^verbatim>\<open>for (size_t iteration = 1; !gotSIGINT; ++iteration)\<close> loop. It ends when the
  interrupt flag is set, when the stop conditions are fulfilled, or when execute throws;
  nothing else bounds it, so \<open>None\<close> stands for a loop that runs for ever.
\<close>

partial_function (option) loop_iterations ::
    "Surroundings \<Rightarrow> Query \<Rightarrow> nat \<Rightarrow> nat \<Rightarrow> PerformanceTest
      \<Rightarrow> ((string \<times> string) option \<times> PerformanceTest) option" where
  "loop_iterations env query run_index iteration s =
     (if gotSIGINT s then Some (None, s)
      else
        let s1 = stop_conditions_upd run_index (report_value Iterations iteration)
                   (s\<lparr>trace := trace s @ [ReportIterations iteration]\<rparr>)
        in if areFulfilled (stop_conditions_by_run s1 ! run_index) then Some (None, s1)
           else (case execute env query run_index s1 of
                   (Some e, s2) \<Rightarrow> Some (Some e, s2)
                 | (None, s2) \<Rightarrow> loop_iterations env query run_index (Suc iteration) s2))"

declare loop_iterations.simps [code]

text \<open>The \<^verbatim>\<open>try\<close> block of runQueries for one (query, run_index) pair.\<close>

definition try_block ::
    "Surroundings \<Rightarrow> Query \<times> nat \<Rightarrow> PerformanceTest
      \<Rightarrow> ((string \<times> string) option \<times> PerformanceTest) option" where
  "try_block env qi s =
     (case qi of (query, run_index) \<Rightarrow>
        (case execute env query run_index s of
           (Some e, s1) \<Rightarrow> Some (Some e, s1)
         | (None, s1) \<Rightarrow>
             if exec_type s1 = Loop then loop_iterations env query run_index 1 s1
             else Some (None, s1)))"

text \<open>The body of the \<^verbatim>\<open>for\<close> loop of runQueries: clear, try, catch, mark ready.\<close>

definition run_slot :: "Surroundings \<Rightarrow> Query \<times> nat \<Rightarrow> PerformanceTest \<Rightarrow> PerformanceTest option" where
  "run_slot env qi s =
     (case try_block env qi (statistics_upd (snd qi) stats_clear s) of
        None \<Rightarrow> None
      | Some (thrown, s1) \<Rightarrow>
          let s2 = (case thrown of
                      None \<Rightarrow> s1
                    | Some (what, displayText) \<Rightarrow>
                        statistics_upd (snd qi)
                          (\<lambda>st. st\<lparr>exception := what @ '', '' @ displayText\<rparr>) s1)
          in Some (if \<not> gotSIGINT s2
                   then statistics_upd (snd qi) (\<lambda>st. st\<lparr>ready := True\<rparr>) s2
                   else s2))"

fun runQueries ::
    "Surroundings \<Rightarrow> (Query \<times> nat) list \<Rightarrow> PerformanceTest \<Rightarrow> PerformanceTest option" where
  "runQueries env [] s = Some s"
| "runQueries env (qi # queries_with_indexes) s =
     (case run_slot env qi s of
        None \<Rightarrow> None
      | Some s' \<Rightarrow> runQueries env queries_with_indexes s')"


section \<open>Running one test (runTest)\<close>

text \<open>
  \<^verbatim>\<open>out_substitutions[name].push_back(value)\<close> on the \<^verbatim>\<open>std::map\<close>: the entry is created
  at its place in key order when it is not there yet.
\<close>

fun map_push_back :: "string \<Rightarrow> string \<Rightarrow> StringToVector \<Rightarrow> StringToVector" where
  "map_push_back name val [] = [(name, [val])]"
| "map_push_back name val ((k, vs) # m) =
     (if name = k then (k, vs @ [val]) # m
      else if name < k then (name, [val]) # (k, vs) # m
      else (k, vs) # map_push_back name val m)"

fun constructSubstitutions ::
    "(string option \<times> string list) list \<Rightarrow> StringToVector \<Rightarrow> error option \<times> StringToVector" where
  "constructSubstitutions [] out_substitutions = (None, out_substitutions)"
| "constructSubstitutions ((xml_name, xml_values) # xml_substitutions) out_substitutions =
     (case xml_name of
        None \<Rightarrow> (Some (NotFoundException ''name''), out_substitutions)
      | Some name \<Rightarrow>
          constructSubstitutions xml_substitutions
            (fold (map_push_back name) xml_values out_substitutions))"

text \<open>The loop that formats every query of \<^verbatim>\<open>queries_pre_format\<close> and joins the results.\<close>

definition format_all :: "Query list \<Rightarrow> StringToVector \<Rightarrow> Query list option" where
  "format_all queries_pre_format subst =
     concat_opt (map (\<lambda>query. formatQueries query subst) queries_pre_format)"

text \<open>
  runTest, first part: the name and the queries, up to the substitutions
  (\<open>read_query_file\<close> is the \<^verbatim>\<open>query_file\<close> block, \<open>substitute_queries\<close> the
  \<^verbatim>\<open>substitutions\<close> block). The result carries the exception that leaves runTest, if
  any, with the state as the members stand at that moment; \<open>None\<close> is an expansion
  that never returns.
\<close>

definition read_query_file :: "XMLConfiguration \<Rightarrow> PerformanceTest \<Rightarrow> error option \<times> PerformanceTest" where
  "read_query_file test_config s =
     (case cfg_query_file test_config of
        None \<Rightarrow> (None, s)
      | Some (filename, file_queries) \<Rightarrow>
          if filename = [] then (Some (Exception ''Empty file name'' BAD_ARGUMENTS), s)
          else (None, s\<lparr>queries := queries s @ file_queries\<rparr>))"

definition substitute_queries ::
    "(string option \<times> string list) list \<Rightarrow> PerformanceTest \<Rightarrow> (error option \<times> PerformanceTest) option" where
  "substitute_queries xml_substitutions s =
     (case constructSubstitutions xml_substitutions (substitutions s (test_name s)) of
        (Some e, out) \<Rightarrow>
          Some (Some e, s\<lparr>substitutions := fun_upd (substitutions s) (test_name s) out\<rparr>)
      | (None, out) \<Rightarrow>
          (case format_all (queries s) out of
             None \<Rightarrow> None
           | Some formatted \<Rightarrow>
               Some (None, s\<lparr>substitutions := fun_upd (substitutions s) (test_name s) out,
                              queries := formatted\<rparr>)))"

definition runTest_queries ::
    "XMLConfiguration \<Rightarrow> PerformanceTest \<Rightarrow> (error option \<times> PerformanceTest) option" where
  "runTest_queries test_config s =
     (case cfg_name test_config of
        None \<Rightarrow> Some (Some (NotFoundException ''name''), s\<lparr>queries := []\<rparr>)
      | Some name \<Rightarrow>
          let s = s\<lparr>queries := [], test_name := name\<rparr> in
          if cfg_query test_config = [] \<and> cfg_query_file test_config = None
          then Some (Some (Exception (''Missing query fields in test's config: '' @ name)
                            BAD_ARGUMENTS), s)
          else if cfg_query test_config \<noteq> [] \<and> cfg_query_file test_config \<noteq> None
          then Some (Some (Exception ''Found both query and query_file fields. Choose only one''
                            BAD_ARGUMENTS), s)
          else
            (case read_query_file test_config
                    (if cfg_query test_config \<noteq> [] then s\<lparr>queries := cfg_query test_config\<rparr>
                     else s) of
               (Some e, s) \<Rightarrow> Some (Some e, s)
             | (None, s) \<Rightarrow>
                 if queries s = []
                 then Some (Some (Exception (''Did not find any query to execute: '' @ name)
                                   BAD_ARGUMENTS), s)
                 else (case cfg_substitutions test_config of
                         None \<Rightarrow> Some (None, s)
                       | Some xml_substitutions \<Rightarrow> substitute_queries xml_substitutions s)))"

text \<open>runTest, second part: \<^verbatim>\<open>type\<close> and \<^verbatim>\<open>times_to_run\<close>.\<close>

definition runTest_type :: "XMLConfiguration \<Rightarrow> PerformanceTest \<Rightarrow> error option \<times> PerformanceTest" where
  "runTest_type test_config s =
     (case cfg_type test_config of
        None \<Rightarrow> (Some (Exception (''Missing type property in config: '' @ test_name s)
                         BAD_ARGUMENTS), s)
      | Some config_exec_type \<Rightarrow>
          let times = (case cfg_times_to_run test_config of None \<Rightarrow> 1 | Some n \<Rightarrow> n) in
          if config_exec_type = ''loop''
          then (None, s\<lparr>exec_type := Loop, times_to_run := times\<rparr>)
          else if config_exec_type = ''once''
          then (None, s\<lparr>exec_type := Once, times_to_run := times\<rparr>)
          else (Some (Exception (''Unknown type '' @ config_exec_type @ '' in :'' @ test_name s)
                        BAD_ARGUMENTS), s))"

text \<open>
  runTest, third part: the stop conditions. \<^verbatim>\<open>stop_conditions_template.empty()\<close> is a
  set without configured predicates.
\<close>

definition runTest_stop_conditions ::
    "XMLConfiguration \<Rightarrow> PerformanceTest \<Rightarrow> error option \<times> PerformanceTest" where
  "runTest_stop_conditions test_config s =
     (let s = s\<lparr>stop_conditions_by_run := []\<rparr>;
          stop_conditions_template =
            (case cfg_stop_conditions test_config of
               None \<Rightarrow> []
             | Some stop_conditions_config \<Rightarrow> loadFromConfig stop_conditions_config)
      in if stop_conditions_template = []
         then (Some (Exception ''No termination conditions were found in config'' BAD_ARGUMENTS), s)
         else (None, s\<lparr>stop_conditions_by_run :=
                          replicate (times_to_run s * length (queries s)) stop_conditions_template\<rparr>))"

text \<open>runTest, fourth part: the requested metrics and the main metric.\<close>

definition runTest_metrics ::
    "XMLConfiguration \<Rightarrow> PerformanceTest \<Rightarrow> (error + string list) \<times> PerformanceTest" where
  "runTest_metrics test_config s =
     (let metrics = cfg_metrics test_config;
          s = s\<lparr>main_metric := []\<rparr>;
          s = (case cfg_main_metric test_config of
                 Some (m # main_metrics) \<Rightarrow> s\<lparr>main_metric := m\<rparr>
               | _ \<Rightarrow> s)
      in if main_metric s \<noteq> []
         then (Inr (if main_metric s \<in> set metrics then metrics else metrics @ [main_metric s]), s)
         else if metrics = []
         then (Inl (Exception ''You shoud specify at least one metric'' BAD_ARGUMENTS), s)
         else
           let s = s\<lparr>main_metric := hd metrics\<rparr> in
           if lite_output s
           then (Inl (Exception ''Specify main_metric for lite output'' BAD_ARGUMENTS), s)
           else (Inr metrics, s))"

definition loop_metrics :: "string list" where
  "loop_metrics =
     [''min_time'', ''quantiles'', ''total_time'', ''queries_per_second'', ''rows_per_second'',
      ''bytes_per_second'']"

definition non_loop_metrics :: "string list" where
  "non_loop_metrics =
     [''max_rows_per_second'', ''max_bytes_per_second'', ''avg_rows_per_second'',
      ''avg_bytes_per_second'']"

definition checkMetricsInput :: "ExecutionType \<Rightarrow> string list \<Rightarrow> error option" where
  "checkMetricsInput et metrics =
     (if et = Loop
      then (case find (\<lambda>metric. metric \<in> set non_loop_metrics) metrics of
              Some metric \<Rightarrow>
                Some (Exception (''Wrong type of metric for loop execution type ('' @ metric @ '')'')
                        BAD_ARGUMENTS)
            | None \<Rightarrow> None)
      else (case find (\<lambda>metric. metric \<in> set loop_metrics) metrics of
              Some metric \<Rightarrow>
                Some (Exception (''Wrong type of metric for non-loop execution type ('' @ metric @ '')'')
                        BAD_ARGUMENTS)
            | None \<Rightarrow> None))"

text \<open>\<^verbatim>\<open>std::vector::resize\<close>: the elements that are there stay as they are.\<close>

definition resize :: "nat \<Rightarrow> TestStats list \<Rightarrow> TestStats list" where
  "resize n xs = take n xs @ replicate (n - length xs) TestStats_default"

text \<open>
  The \<^verbatim>\<open>for (number_of_launch ...)\<close> loop of runTest over the launches left: reset the
  stop conditions of the launch's runs, ask the interrupt listener, run the queries.
\<close>

fun launches :: "Surroundings \<Rightarrow> nat list \<Rightarrow> PerformanceTest \<Rightarrow> PerformanceTest option" where
  "launches env [] s = Some s"
| "launches env (number_of_launch # rest) s =
     (let queries_with_indexes =
            map (\<lambda>query_index.
                  (queries s ! query_index, number_of_launch * length (queries s) + query_index))
              [0..<length (queries s)];
          s1 = fold (\<lambda>qi. stop_conditions_upd (snd qi) reset) queries_with_indexes s;
          s2 = (if fst (interrupt_listener_check env s1)
                then (snd (interrupt_listener_check env s1))\<lparr>gotSIGINT := True\<rparr>
                else snd (interrupt_listener_check env s1))
      in if gotSIGINT s2 then Some s2
         else (case runQueries env queries_with_indexes s2 of
                 None \<Rightarrow> None
               | Some s3 \<Rightarrow> launches env rest s3))"

section \<open>Reports (constructTotalInfo, minOutput)\<close>

text \<open>
  The report as the values constructTotalInfo puts into it, without the facts about the
  host and without the numbers of the metrics: a run's \<open>ri_metrics\<close> are the keys of
  the metrics written for it. Rendering as JSON text is left out.
\<close>

record RunInfo =
  ri_query :: string
  ri_exception :: "string option"
  ri_parameters :: "(string \<times> string) list option"
  ri_metrics :: "string list"

record Report =
  rep_test_name :: string
  rep_main_metric :: string
  rep_parameters :: "StringToVector option"
  rep_runs :: "RunInfo list"

definition escape_quotes :: "string \<Rightarrow> string" where
  "escape_quotes q = concat (map (\<lambda>c. if c = CHR 0x22 then [CHR 0x5C, CHR 0x22] else [c]) q)"

definition run_info :: "string list \<Rightarrow> PerformanceTest \<Rightarrow> nat \<Rightarrow> nat \<Rightarrow> RunInfo" where
  "run_info metrics s query_index number_of_launch =
     (let statistics = statistics_by_run s ! (number_of_launch * length (queries s) + query_index)
      in \<lparr>ri_query = escape_quotes (queries s ! query_index),
          ri_exception = (if exception statistics \<noteq> [] then Some (exception statistics) else None),
          ri_parameters = (if substitutions_maps s \<noteq> []
                           then Some (substitutions_maps s ! query_index) else None),
          ri_metrics = filter (\<lambda>m. m \<in> set metrics)
                         (if exec_type s = Loop then loop_metrics else non_loop_metrics)\<rparr>)"

definition constructTotalInfo :: "string list \<Rightarrow> PerformanceTest \<Rightarrow> Report" where
  "constructTotalInfo metrics s =
     \<lparr>rep_test_name = test_name s,
      rep_main_metric = main_metric s,
      rep_parameters = (if substitutions s (test_name s) \<noteq> []
                        then Some (substitutions s (test_name s)) else None),
      rep_runs =
        concat (map (\<lambda>query_index.
          concat (map (\<lambda>number_of_launch.
            if \<not> ready (statistics_by_run s ! (number_of_launch * length (queries s) + query_index))
            then []
            else [run_info metrics s query_index number_of_launch])
          [0..<times_to_run s]))
        [0..<length (queries s)])\<rparr>"

text \<open>\<^verbatim>\<open>std::to_string\<close> of a \<^verbatim>\<open>size_t\<close>.\<close>

fun to_string :: "nat \<Rightarrow> string" where
  "to_string n =
     (if n < 10 then [char_of (48 + n)]
      else to_string (n div 10) @ [char_of (48 + n mod 10)])"

declare to_string.simps [simp del]

text \<open>The text minOutput appends for one run: one line, closed by a newline.\<close>

definition min_line :: "Surroundings \<Rightarrow> PerformanceTest \<Rightarrow> nat \<Rightarrow> nat \<Rightarrow> string" where
  "min_line env s query_index number_of_launch =
     (if length (queries s) > 1
      then ''query '' @ [CHR 0x22] @ queries s ! query_index @ [CHR 0x22] @ '', ''
      else [])
     @ (if substitutions_maps s \<noteq> []
        then concat (map (\<lambda>(k, v). k @ '' = '' @ v @ '', '') (substitutions_maps s ! query_index))
        else [])
     @ ''run '' @ to_string (number_of_launch + 1) @ '': ''
     @ main_metric s @ '' = ''
     @ getStatisticByName env
         (statistics_by_run s ! (number_of_launch * length (queries s) + query_index))
         (main_metric s)
     @ [CHR 0x0A]"

definition minOutput_lines :: "Surroundings \<Rightarrow> PerformanceTest \<Rightarrow> string list" where
  "minOutput_lines env s =
     concat (map (\<lambda>query_index.
       map (\<lambda>number_of_launch. min_line env s query_index number_of_launch)
         [0..<times_to_run s])
     [0..<length (queries s)])"

definition minOutput :: "Surroundings \<Rightarrow> PerformanceTest \<Rightarrow> string" where
  "minOutput env s = concat (minOutput_lines env s)"

datatype Output = Lite string | Json Report

text \<open>
  runTest up to the call of checkMetricsInput: everything that is checked before the
  first query is sent. The result is the list of metrics that has been checked and
  that constructTotalInfo will be given.
\<close>

definition runTest_validate ::
    "XMLConfiguration \<Rightarrow> PerformanceTest \<Rightarrow> ((error + string list) \<times> PerformanceTest) option" where
  "runTest_validate test_config s =
     (case runTest_queries test_config s of
        None \<Rightarrow> None
      | Some (Some e, s) \<Rightarrow> Some (Inl e, s)
      | Some (None, s) \<Rightarrow>
          (case runTest_type test_config s of
             (Some e, s) \<Rightarrow> Some (Inl e, s)
           | (None, s) \<Rightarrow>
               (case runTest_stop_conditions test_config s of
                  (Some e, s) \<Rightarrow> Some (Inl e, s)
                | (None, s) \<Rightarrow>
                    (case runTest_metrics test_config s of
                       (Inl e, s) \<Rightarrow> Some (Inl e, s)
                     | (Inr metrics, s) \<Rightarrow>
                         (case (if metrics \<noteq> [] then checkMetricsInput (exec_type s) metrics
                                else None) of
                            Some e \<Rightarrow> Some (Inl e, s)
                          | None \<Rightarrow> Some (Inr metrics, s))))))"

definition runTest ::
    "Surroundings \<Rightarrow> XMLConfiguration \<Rightarrow> PerformanceTest \<Rightarrow> ((error + Output) \<times> PerformanceTest) option" where
  "runTest env test_config s =
     (case runTest_validate test_config s of
        None \<Rightarrow> None
      | Some (Inl e, s) \<Rightarrow> Some (Inl e, s)
      | Some (Inr metrics, s) \<Rightarrow>
          (case launches env [0..<times_to_run s]
                  (s\<lparr>statistics_by_run :=
                       resize (times_to_run s * length (queries s)) (statistics_by_run s)\<rparr>) of
             None \<Rightarrow> None
           | Some s \<Rightarrow>
               Some (Inr (if lite_output s then Lite (minOutput env s)
                          else Json (constructTotalInfo metrics s)), s)))"

text \<open>
  processTestsConfigurations: the tests that pass the filters are run one after the
  other on the same object; a test whose preconditions fail is skipped.
\<close>

fun run_tests ::
    "Surroundings \<Rightarrow> XMLConfiguration list \<Rightarrow> Output list \<Rightarrow> PerformanceTest
      \<Rightarrow> ((error + Output list) \<times> PerformanceTest) option" where
  "run_tests env [] outputs s = Some (Inr outputs, s)"
| "run_tests env (test_config # tests_configurations) outputs s =
     (if \<not> checkPreconditions env test_config then run_tests env tests_configurations outputs s
      else (case runTest env test_config s of
              None \<Rightarrow> None
            | Some (Inl e, s') \<Rightarrow> Some (Inl e, s')
            | Some (Inr output, s') \<Rightarrow>
                run_tests env tests_configurations (outputs @ [output]) s'))"

definition processTestsConfigurations ::
    "Surroundings \<Rightarrow> (string \<Rightarrow> string \<Rightarrow> bool) \<Rightarrow> Filters \<Rightarrow> XMLConfiguration list \<Rightarrow> PerformanceTest
      \<Rightarrow> ((error + Output list) \<times> PerformanceTest) option" where
  "processTestsConfigurations env regex_search fl configs s =
     run_tests env (filterConfigurations regex_search fl configs) [] s"



definition substitutions_brace_free :: "XMLConfiguration \<Rightarrow> PerformanceTest \<Rightarrow> bool" where
  "substitutions_brace_free test_config s =
     (case (cfg_name test_config, cfg_substitutions test_config) of
        (Some name, Some xml_substitutions) \<Rightarrow>
          values_brace_free (substitutions s name)
          \<and> list_all (\<lambda>(n, vs). list_all (\<lambda>v. CHR ''{'' \<notin> set v) vs) xml_substitutions
      | _ \<Rightarrow> True)"


text \<open>
  How two states of the launcher are related by running queries: what the test has
  fixed stays as it is, the two vectors keep their lengths, the interrupt flag is never
  taken back, and only the statistics at the indexes in \<open>I\<close> may differ.
\<close>

definition same_test :: "PerformanceTest \<Rightarrow> PerformanceTest \<Rightarrow> bool" where
  "same_test s s' =
     (test_name s' = test_name s \<and> queries s' = queries s \<and> main_metric s' = main_metric s
      \<and> lite_output s' = lite_output s \<and> exec_type s' = exec_type s
      \<and> times_to_run s' = times_to_run s \<and> substitutions s' = substitutions s
      \<and> substitutions_maps s' = substitutions_maps s
      \<and> length (statistics_by_run s') = length (statistics_by_run s)
      \<and> length (stop_conditions_by_run s') = length (stop_conditions_by_run s)
      \<and> (gotSIGINT s \<longrightarrow> gotSIGINT s'))"

definition touches :: "nat set \<Rightarrow> PerformanceTest \<Rightarrow> PerformanceTest \<Rightarrow> bool" where
  "touches I s s' =
     (same_test s s' \<and> (\<forall>j. j \<notin> I \<longrightarrow> statistics_by_run s' ! j = statistics_by_run s ! j))"

text \<open>The log of \<open>n\<close> rounds of the loop of runQueries, the first with number \<open>k\<close>.\<close>

definition iteration_events :: "Query \<Rightarrow> nat \<Rightarrow> nat \<Rightarrow> event list" where
  "iteration_events query k n =
     concat (map (\<lambda>iteration. [ReportIterations iteration, Invoke query]) [k..<k + n])"

text \<open>The log shows, run after run, a part that starts with the run's query being sent.\<close>

definition invoked_in_order :: "Query list \<Rightarrow> event list \<Rightarrow> bool" where
  "invoked_in_order qs events =
     (\<exists>segments. events = concat segments
        \<and> list_all2 (\<lambda>query segment. \<exists>more. segment = Invoke query # more) qs segments)"

text \<open>The indexes of the runs of the launches \<open>ls\<close> when there are \<open>n\<close> queries.\<close>

definition launch_indexes :: "nat \<Rightarrow> nat list \<Rightarrow> nat set" where
  "launch_indexes n ls = {number_of_launch * n + query_index | number_of_launch query_index.
                            number_of_launch \<in> set ls \<and> query_index < n}"

text \<open>The number of runs marked ready.\<close>

definition readies :: "PerformanceTest \<Rightarrow> nat" where
  "readies s = length (filter ready (statistics_by_run s))"

text \<open>From \<open>s\<close> to \<open>s'\<close>, at least as many queries have been sent as runs have become ready.\<close>

definition sent_for_ready :: "PerformanceTest \<Rightarrow> PerformanceTest \<Rightarrow> bool" where
  "sent_for_ready s s' = (readies s' + invocations s \<le> readies s + invocations s')"

section \<open>Inputs for the examples\<close>

text \<open>
  Surroundings in which every query succeeds at once, without progress packets, and no
  interrupt arrives.
\<close>

definition quiet :: Surroundings where
  "quiet =
     \<lparr>stream_response = (\<lambda>n query. \<lparr>progress = [], failure = None\<rparr>),
      interrupt_check = (\<lambda>n. False),
      checkPreconditions = (\<lambda>config. True),
      getStatisticByName = (\<lambda>statistics name. ''0'')\<rparr>"

text \<open>A test that runs \<^verbatim>\<open>SELECT 1\<close> once and asks for one metric.\<close>

definition test_A :: XMLConfiguration where
  "test_A =
     \<lparr>cfg_name = Some ''A'', cfg_tags = [], cfg_query = [''SELECT 1''], cfg_query_file = None,
      cfg_substitutions = None, cfg_type = Some ''once'', cfg_times_to_run = None,
      cfg_stop_conditions = Some [(TotalTime, 1000)],
      cfg_metrics = [''max_rows_per_second''], cfg_main_metric = None\<rparr>"

text \<open>The same test for \<^verbatim>\<open>SELECT 2\<close>, under the name B.\<close>

definition test_B :: XMLConfiguration where
  "test_B = test_A\<lparr>cfg_name := Some ''B'', cfg_query := [''SELECT 2'']\<rparr>"

text \<open>A test without a \<^verbatim>\<open>name\<close> element and without stop conditions.\<close>

definition test_nameless :: XMLConfiguration where
  "test_nameless = test_A\<lparr>cfg_name := None, cfg_stop_conditions := None\<rparr>"

text \<open>
  A loop test that asks for a metric of the other kind and whose only substitution
  value is the variable's own token.
\<close>

definition test_self_reference :: XMLConfiguration where
  "test_self_reference =
     test_A\<lparr>cfg_query := [''SELECT {a}''],
            cfg_substitutions := Some [(Some ''a'', [''{a}''])],
            cfg_type := Some ''loop'',
            cfg_stop_conditions := Some [(Iterations, 1)]\<rparr>"

text \<open>Surroundings in which the interrupt is seen from the second poll on.\<close>

definition interrupt_after_first :: Surroundings where
  "interrupt_after_first = quiet\<lparr>interrupt_check := (\<lambda>n. n \<ge> 1)\<rparr>"





section \<open>Properties of the expansion\<close>

lemma find_str_Some:
  "find_str s m = Some p \<Longrightarrow> s = take p s @ m @ drop (p + length m) s"
proof (induction s m arbitrary: p rule: find_str.induct)
  case (1 msk)
  then show ?case by (auto split: if_splits)
next
  case (2 c cs msk)
  show ?case
  proof (cases "take (length msk) (c # cs) = msk")
    case True
    with 2 have "p = 0" by simp
    with True show ?thesis by (metis add_0 append_take_drop_id take_0 append_Nil)
  next
    case False
    with 2 obtain p' where p': "find_str cs msk = Some p'" "p = Suc p'" by auto
    from 2(1)[OF False p'(1)] p'(2) show ?thesis by simp
  qed
qed

lemma braces_0: "CHR ''{'' \<notin> set s \<Longrightarrow> braces s = 0"
  by (induction s) (auto simp: braces_def)

lemma braces_pos: "CHR ''{'' \<in> set s \<Longrightarrow> braces s > 0"
  by (induction s) (auto simp: braces_def)

text \<open>
  A value without an opening brace ends the replacement loop: every round takes at
  least one opening brace out of the query.
\<close>

lemma substitute_loop_returns_aux:
  assumes "CHR ''{'' \<notin> set val" "CHR ''{'' \<in> set msk"
  shows "braces query = n \<Longrightarrow> \<exists>q. substitute_loop msk val query = Some q"
proof (induction n arbitrary: query rule: less_induct)
  case (less n)
  show ?case
  proof (cases "find_str query msk")
    case None
    then show ?thesis by (subst substitute_loop.simps) simp
  next
    case (Some p)
    let ?q = "replace_str query p (length msk) val"
    from find_str_Some[OF Some]
    have eq: "query = take p query @ msk @ drop (p + length msk) query" .
    have "braces query = braces (take p query) + braces msk + braces (drop (p + length msk) query)"
      by (subst eq) (simp add: braces_def)
    moreover have "braces ?q = braces (take p query) + braces val + braces (drop (p + length msk) query)"
      by (simp add: braces_def replace_str_def)
    moreover have "braces val = 0" using assms(1) by (rule braces_0)
    moreover have "braces msk > 0" using assms(2) by (rule braces_pos)
    ultimately have "braces ?q < n" using less.prems by simp
    from less.IH[OF this refl] obtain q where "substitute_loop msk val ?q = Some q" by blast
    then show ?thesis using Some by (subst substitute_loop.simps) simp
  qed
qed

lemma substitute_loop_returns:
  "CHR ''{'' \<notin> set val \<Longrightarrow> \<exists>q. substitute_loop (substitution_mask n) val t = Some q"
  by (rule substitute_loop_returns_aux[OF _ _ refl]) (simp_all add: substitution_mask_def)

text \<open>A value that is its own mask keeps the loop going for ever.\<close>

lemma substitute_loop_self:
  assumes "find_str query msk \<noteq> None"
  shows "substitute_loop msk msk query = None"
proof -
  have "\<not> (v = m \<and> find_str q m \<noteq> None)" if "substitute_loop m v q = Some y" for m v q y
  proof (rule substitute_loop.raw_induct
            [where P = "\<lambda>m v q y. \<not> (v = m \<and> find_str q m \<noteq> None)", OF _ that])
    fix f :: "string \<Rightarrow> string \<Rightarrow> string \<Rightarrow> string option" and m v q y
    assume IH: "\<And>m v q y. f m v q = Some y \<Longrightarrow> \<not> (v = m \<and> find_str q m \<noteq> None)"
      and step: "(case find_str q m of None \<Rightarrow> Some q
                  | Some pos \<Rightarrow> f m v (replace_str q pos (length m) v)) = Some y"
    show "\<not> (v = m \<and> find_str q m \<noteq> None)"
    proof
      assume a: "v = m \<and> find_str q m \<noteq> None"
      then obtain p where p: "find_str q m = Some p" by auto
      from find_str_Some[OF p] have "replace_str q p (length m) m = q"
        by (simp add: replace_str_def)
      with step p a have "f m m q = Some y" by simp
      from IH[OF this] a show False by simp
    qed
  qed
  with assms show ?thesis by (cases "substitute_loop msk msk query") auto
qed

text \<open>The accumulator only collects: the queries so far stay in front.\<close>

lemma push_values_acc:
  assumes IH: "\<And>t out. runThroughAllOptionsAndPush rest t out
                = map_option ((@) out) (runThroughAllOptionsAndPush rest t [])"
  shows "push_values m vs rest t out = map_option ((@) out) (push_values m vs rest t [])"
proof (induction vs arbitrary: out)
  case Nil
  then show ?case by simp
next
  case (Cons v vs)
  show ?case
  proof (cases "substitute_loop m v t")
    case None
    then show ?thesis by simp
  next
    case (Some q)
    note q = this
    show ?thesis
    proof (cases "runThroughAllOptionsAndPush rest q []")
      case None
      then show ?thesis using q IH[of q out] by simp
    next
      case (Some r)
      have a: "runThroughAllOptionsAndPush rest q out = Some (out @ r)"
        using IH[of q out] Some by simp
      show ?thesis using q Some a Cons.IH[of "out @ r"] Cons.IH[of r]
        by (simp add: option.map_comp comp_def)
    qed
  qed
qed

lemma runThroughAllOptionsAndPush_acc:
  "runThroughAllOptionsAndPush vars t out
     = map_option ((@) out) (runThroughAllOptionsAndPush vars t [])"
proof (induction vars arbitrary: t out)
  case Nil
  then show ?case by simp
next
  case (Cons a vars)
  obtain n vs where a: "a = (n, vs)" by (cases a)
  show ?case unfolding a
    by (simp add: push_values_acc[of vars _ _ _ out, OF Cons.IH] Cons.IH[of t out])
qed

lemma concat_opt_Nil: "concat_opt [] = Some []"
  by (simp add: concat_opt_def)

lemma concat_opt_Cons:
  "concat_opt (x # xs) = (case x of None \<Rightarrow> None | Some r \<Rightarrow> map_option ((@) r) (concat_opt xs))"
  by (cases x; cases "those xs") (simp_all add: concat_opt_def)

lemma concat_opt_append:
  "concat_opt (xs @ ys)
     = (case concat_opt xs of None \<Rightarrow> None | Some r \<Rightarrow> map_option ((@) r) (concat_opt ys))"
proof (induction xs)
  case Nil
  then show ?case by (cases "concat_opt ys") (simp_all add: concat_opt_Nil)
next
  case (Cons x xs)
  then show ?case
    by (cases x; cases "concat_opt xs"; cases "concat_opt ys") (simp_all add: concat_opt_Cons)
qed

lemma formatQueries_Nil: "formatQueries t [] = Some [t]"
  by (simp add: formatQueries_def)

text \<open>The expansion without its accumulator: one branch per value, joined in order.\<close>

lemma formatQueries_Cons:
  "formatQueries t ((n, vs) # rest) =
    (if \<not> occurs n t then formatQueries t rest
     else concat_opt (map (\<lambda>v. case substitute_loop (substitution_mask n) v t of
                                   None \<Rightarrow> None | Some q \<Rightarrow> formatQueries q rest) vs))"
proof -
  have "push_values m vs rest t [] =
          concat_opt (map (\<lambda>v. case substitute_loop m v t of
                                  None \<Rightarrow> None | Some q \<Rightarrow> formatQueries q rest) vs)" for m
  proof (induction vs)
    case Nil
    then show ?case by (simp add: concat_opt_Nil)
  next
    case (Cons v vs)
    show ?case
    proof (cases "substitute_loop m v t")
      case None
      then show ?thesis by (simp add: concat_opt_Cons)
    next
      case (Some q)
      show ?thesis
      proof (cases "formatQueries q rest")
        case None
        then show ?thesis using Some by (simp add: concat_opt_Cons formatQueries_def)
      next
        case (Some r)
        then have "runThroughAllOptionsAndPush rest q [] = Some r" by (simp add: formatQueries_def)
        then show ?thesis using \<open>substitute_loop m v t = Some q\<close> Some Cons.IH
          by (simp add: concat_opt_Cons
                push_values_acc[of rest _ _ _ r, OF runThroughAllOptionsAndPush_acc])
      qed
    qed
  qed
  then show ?thesis by (simp add: formatQueries_def occurs_def)
qed

lemma expected_count_cong:
  "(\<forall>(n, vs) \<in> set vars. occurs n q = occurs n t) \<Longrightarrow> expected_count vars q = expected_count vars t"
  unfolding expected_count_def by (induction vars) auto

lemma length_concat_opt_const:
  "\<forall>x \<in> set xs. \<exists>r. x = Some r \<and> length r = k
    \<Longrightarrow> \<exists>rs. concat_opt xs = Some rs \<and> length rs = length xs * k"
proof (induction xs)
  case Nil
  then show ?case by (simp add: concat_opt_Nil)
next
  case (Cons x xs)
  then obtain r where r: "x = Some r" "length r = k" by auto
  from Cons obtain rs where rs: "concat_opt xs = Some rs" "length rs = length xs * k" by auto
  show ?case using r rs by (simp add: concat_opt_Cons)
qed

text \<open>Expanding over \<open>pre @ post\<close> is expanding over \<open>pre\<close> and then each result over \<open>post\<close>.\<close>

lemma formatQueries_append:
  "formatQueries t (pre @ post) =
     (case formatQueries t pre of
        None \<Rightarrow> None
      | Some qs \<Rightarrow> concat_opt (map (\<lambda>q. formatQueries q post) qs))"
proof (induction pre arbitrary: t)
  case Nil
  show ?case
    by (cases "formatQueries t post") (simp_all add: formatQueries_Nil concat_opt_Cons concat_opt_Nil)
next
  case (Cons a pre)
  obtain n vs where a: "a = (n, vs)" by (cases a)
  let ?g = "\<lambda>q. formatQueries q post"
  let ?f = "\<lambda>rest v. case substitute_loop (substitution_mask n) v t of
                        None \<Rightarrow> None | Some q \<Rightarrow> formatQueries q rest"
  have "concat_opt (map (?f (pre @ post)) vs) =
     (case concat_opt (map (?f pre) vs) of None \<Rightarrow> None | Some qs \<Rightarrow> concat_opt (map ?g qs))"
  proof (induction vs)
    case Nil
    then show ?case by (simp add: concat_opt_Nil)
  next
    case (Cons v vs)
    show ?case
    proof (cases "substitute_loop (substitution_mask n) v t")
      case None
      then show ?thesis by (simp add: concat_opt_Cons)
    next
      case (Some q)
      note q = this
      show ?thesis
      proof (cases "formatQueries q pre")
        case None
        then show ?thesis using q
          by (simp add: concat_opt_Cons \<open>\<And>t. formatQueries t (pre @ post) = _\<close>)
      next
        case (Some qs1)
        show ?thesis
        proof (cases "concat_opt (map (?f pre) vs)")
          case None
          then show ?thesis using q Some Cons.IH
            by (simp add: concat_opt_Cons \<open>\<And>t. formatQueries t (pre @ post) = _\<close>
                  split: option.splits)
        next
          case (Some qs2)
          then show ?thesis using q \<open>formatQueries q pre = Some qs1\<close> Cons.IH
            by (simp add: concat_opt_Cons concat_opt_append
                  \<open>\<And>t. formatQueries t (pre @ post) = _\<close> split: option.splits)
        qed
      qed
    qed
  qed
  then show ?case using Cons.IH by (simp add: a formatQueries_Cons)
qed

text \<open>
  Claim C1, as stated: for every template and every map, the expansion returns a list
  whose length is the product of the value-list lengths of the variables whose token
  occurs in the template. It fails where a value brings in the token of a later
  variable: the template \<open>{a}\<close> holds the token of \<open>a\<close> only, which has one value, and
  yet two queries come out, because \<open>b\<close> is looked up in the substituted query \<open>{b}\<close>.
\<close>

theorem formatQueries_count_counterexample:
  "map_ordered [(''a'', [''{b}'']), (''b'', [''1'', ''2''])]
   \<and> formatQueries ''{a}'' [(''a'', [''{b}'']), (''b'', [''1'', ''2''])] = Some [''1'', ''2'']
   \<and> expected_count [(''a'', [''{b}'']), (''b'', [''1'', ''2''])] ''{a}'' = 1"
  by (simp add: map_ordered_def formatQueries_def substitution_mask_def substitute_loop.simps
        replace_str_def expected_count_def occurs_def)

text \<open>
  Claim C1, amended: when no value contains an opening brace (so every replacement
  loop ends) and no substitution creates or removes an occurrence of the token of a
  variable processed later, the expansion returns a list whose length is the product
  of the value-list lengths of exactly the variables whose token occurs in the
  template; a variable whose token does not occur counts as 1.
\<close>

theorem formatQueries_count:
  assumes "values_brace_free vars" and "token_stable vars t"
  shows "\<exists>qs. formatQueries t vars = Some qs \<and> length qs = expected_count vars t"
  using assms
proof (induction vars arbitrary: t)
  case Nil
  then show ?case by (simp add: formatQueries_Nil expected_count_def)
next
  case (Cons a vars)
  obtain n vs where a: "a = (n, vs)" by (cases a)
  have bf: "values_brace_free vars" using Cons.prems(1) by (simp add: values_brace_free_def)
  show ?case
  proof (cases "occurs n t")
    case False
    then have "token_stable vars t" using Cons.prems(2) a by simp
    from Cons.IH[OF bf this] False show ?thesis
      by (simp add: a formatQueries_Cons expected_count_def)
  next
    case True
    let ?f = "\<lambda>v. case substitute_loop (substitution_mask n) v t of
                     None \<Rightarrow> None | Some q \<Rightarrow> formatQueries q vars"
    have "\<forall>x \<in> set (map ?f vs). \<exists>r. x = Some r \<and> length r = expected_count vars t"
    proof
      fix x assume "x \<in> set (map ?f vs)"
      then obtain v where v: "v \<in> set vs" "x = ?f v" by auto
      from Cons.prems(2) True a v(1)
      obtain q where q: "substitute_loop (substitution_mask n) v t = Some q"
        "\<forall>(m, ws) \<in> set vars. occurs m q = occurs m t" "token_stable vars q"
        by (auto split: option.splits)
      from Cons.IH[OF bf q(3)] obtain r
        where "formatQueries q vars = Some r" "length r = expected_count vars q" by blast
      with expected_count_cong[OF q(2)] q(1) v(2)
      show "\<exists>r. x = Some r \<and> length r = expected_count vars t" by simp
    qed
    from length_concat_opt_const[OF this] True show ?thesis
      by (simp add: a formatQueries_Cons expected_count_def)
  qed
qed

theorem formatQueries_count_witness:
  "values_brace_free [(''n'', [''1'', ''2'']), (''t'', [''hits''])]
   \<and> token_stable [(''n'', [''1'', ''2'']), (''t'', [''hits''])] ''SELECT {n} FROM {t}''
   \<and> (\<exists>qs. formatQueries ''SELECT {n} FROM {t}'' [(''n'', [''1'', ''2'']), (''t'', [''hits''])]
             = Some qs
           \<and> length qs = expected_count [(''n'', [''1'', ''2'']), (''t'', [''hits''])]
                           ''SELECT {n} FROM {t}'')"
proof -
  have h1: "values_brace_free [(''n'', [''1'', ''2'']), (''t'', [''hits''])]"
    by (simp add: values_brace_free_def)
  have h2: "token_stable [(''n'', [''1'', ''2'']), (''t'', [''hits''])] ''SELECT {n} FROM {t}''"
    by (simp add: occurs_def substitution_mask_def substitute_loop.simps replace_str_def)
  from formatQueries_count[OF h1 h2] h1 h2 show ?thesis by blast
qed

text \<open>
  Claim C8, as stated: a variable whose token does not occur in the template can be
  added or removed without changing the queries. It fails for the same reason as
  above: \<open>{y}\<close> does not occur in \<open>SELECT {x}\<close>, but with \<open>y\<close> in the map the result
  differs from the result without it.
\<close>

theorem unused_variable_counterexample:
  "\<not> occurs ''y'' ''SELECT {x}''
   \<and> map_ordered [(''x'', [''{y}'']), (''y'', [''1'', ''2''])]
   \<and> formatQueries ''SELECT {x}'' [(''x'', [''{y}'']), (''y'', [''1'', ''2''])]
       = Some [''SELECT 1'', ''SELECT 2'']
   \<and> formatQueries ''SELECT {x}'' [(''x'', [''{y}''])] = Some [''SELECT {y}'']"
  by (simp add: map_ordered_def formatQueries_def substitution_mask_def substitute_loop.simps
        replace_str_def occurs_def)

text \<open>
  Claim C8, amended: a variable whose token occurs in none of the queries that the
  variables before it produce from the template (for the first variable of the map:
  not in the template itself) can be added or removed without changing the list of
  queries that the expansion returns.
\<close>

theorem unused_variable:
  assumes "\<forall>qs. formatQueries t pre = Some qs \<longrightarrow> (\<forall>q \<in> set qs. \<not> occurs name q)"
  shows "formatQueries t (pre @ (name, vals) # post) = formatQueries t (pre @ post)"
proof (cases "formatQueries t pre")
  case None
  then show ?thesis by (simp add: formatQueries_append)
next
  case (Some qs)
  with assms have "\<forall>q \<in> set qs. \<not> occurs name q" by simp
  then have eq: "map (\<lambda>q. formatQueries q ((name, vals) # post)) qs
                   = map (\<lambda>q. formatQueries q post) qs"
    by (simp add: formatQueries_Cons)
  show ?thesis unfolding formatQueries_append[of t pre] Some option.case eq ..
qed

theorem unused_variable_witness:
  "formatQueries ''SELECT {n}'' [(''n'', [''1'', ''2''])] = Some [''SELECT 1'', ''SELECT 2'']
   \<and> \<not> occurs ''x'' ''SELECT 1'' \<and> \<not> occurs ''x'' ''SELECT 2''
   \<and> formatQueries ''SELECT {n}'' ([(''n'', [''1'', ''2''])] @ (''x'', [''a'', ''b'']) # [])
       = formatQueries ''SELECT {n}'' ([(''n'', [''1'', ''2''])] @ [])"
proof -
  have h1: "formatQueries ''SELECT {n}'' [(''n'', [''1'', ''2''])] = Some [''SELECT 1'', ''SELECT 2'']"
    by (simp add: formatQueries_def substitution_mask_def substitute_loop.simps replace_str_def)
  have h2: "\<not> occurs ''x'' ''SELECT 1''" "\<not> occurs ''x'' ''SELECT 2''"
    by (simp_all add: occurs_def substitution_mask_def)
  have h: "\<forall>qs. formatQueries ''SELECT {n}'' [(''n'', [''1'', ''2''])] = Some qs
             \<longrightarrow> (\<forall>q \<in> set qs. \<not> occurs ''x'' q)"
    using h1 h2 by auto
  from unused_variable[OF h, of "[''a'', ''b'']" "[]"] h1 h2 show ?thesis by blast
qed
section \<open>Validation of a test (runTest up to checkMetricsInput)\<close>

text \<open>Brace-free values let every expansion return.\<close>

lemma concat_opt_all_Some:
  "\<forall>x \<in> set xs. x \<noteq> None \<Longrightarrow> \<exists>r. concat_opt xs = Some r"
  by (induction xs) (auto simp: concat_opt_Nil concat_opt_Cons)

lemma formatQueries_returns:
  "values_brace_free vars \<Longrightarrow> \<exists>qs. formatQueries t vars = Some qs"
proof (induction vars arbitrary: t)
  case Nil
  then show ?case by (simp add: formatQueries_Nil)
next
  case (Cons a vars)
  obtain n vs where a: "a = (n, vs)" by (cases a)
  have bf: "values_brace_free vars" and vs: "\<forall>v \<in> set vs. CHR ''{'' \<notin> set v"
    using Cons.prems by (simp_all add: values_brace_free_def a)
  have "\<forall>x \<in> set (map (\<lambda>v. case substitute_loop (substitution_mask n) v t of
                                   None \<Rightarrow> None | Some q \<Rightarrow> formatQueries q vars) vs). x \<noteq> None"
  proof
    fix x assume "x \<in> set (map (\<lambda>v. case substitute_loop (substitution_mask n) v t of
                                   None \<Rightarrow> None | Some q \<Rightarrow> formatQueries q vars) vs)"
    then obtain v where v: "v \<in> set vs"
      "x = (case substitute_loop (substitution_mask n) v t of None \<Rightarrow> None | Some q \<Rightarrow> formatQueries q vars)"
      by auto
    from vs v(1) substitute_loop_returns obtain q where "substitute_loop (substitution_mask n) v t = Some q"
      by blast
    with Cons.IH[OF bf, of q] v(2) show "x \<noteq> None" by auto
  qed
  from concat_opt_all_Some[OF this] Cons.IH[OF bf, of t] show ?case
    by (simp add: a formatQueries_Cons)
qed

lemma format_all_returns:
  "values_brace_free m \<Longrightarrow> \<exists>formatted. format_all qs m = Some formatted"
  unfolding format_all_def
  by (rule concat_opt_all_Some) (use formatQueries_returns in fastforce)

lemma map_push_back_brace_free:
  "CHR ''{'' \<notin> set v \<Longrightarrow> values_brace_free m \<Longrightarrow> values_brace_free (map_push_back n v m)"
  by (induction n v m rule: map_push_back.induct) (auto simp: values_brace_free_def)

lemma fold_map_push_back_brace_free:
  "\<forall>v \<in> set vs. CHR ''{'' \<notin> set v \<Longrightarrow> values_brace_free m
    \<Longrightarrow> values_brace_free (fold (map_push_back n) vs m)"
  by (induction vs arbitrary: m) (simp_all add: map_push_back_brace_free)

lemma constructSubstitutions_brace_free:
  "list_all (\<lambda>(n, vs). list_all (\<lambda>v. CHR ''{'' \<notin> set v) vs) xs \<Longrightarrow> values_brace_free m
    \<Longrightarrow> values_brace_free (snd (constructSubstitutions xs m))"
proof (induction xs m rule: constructSubstitutions.induct)
  case (1 out_substitutions)
  then show ?case by simp
next
  case (2 xml_name xml_values xml_substitutions out_substitutions)
  show ?case
  proof (cases xml_name)
    case None
    then show ?thesis using 2 by simp
  next
    case (Some name)
    have "values_brace_free (fold (map_push_back name) xml_values out_substitutions)"
      using 2(2,3) by (intro fold_map_push_back_brace_free) (auto simp: list_all_iff)
    with 2 Some show ?thesis by simp
  qed
qed

lemma substitute_queries_returns:
  assumes "values_brace_free (substitutions s (test_name s))"
    and "list_all (\<lambda>(n, vs). list_all (\<lambda>v. CHR ''{'' \<notin> set v) vs) xs"
  shows "\<exists>r. substitute_queries xs s = Some r"
proof -
  obtain e out where c: "constructSubstitutions xs (substitutions s (test_name s)) = (e, out)"
    by (cases "constructSubstitutions xs (substitutions s (test_name s))")
  from constructSubstitutions_brace_free[OF assms(2,1)] c have "values_brace_free out" by simp
  from format_all_returns[OF this] obtain f where "format_all (queries s) out = Some f" by blast
  with c show ?thesis by (cases e) (simp_all add: substitute_queries_def)
qed

lemma runTest_queries_returns:
  assumes "substitutions_brace_free c s"
  shows "\<exists>r. runTest_queries c s = Some r"
proof (cases "cfg_name c")
  case None
  then show ?thesis by (simp add: runTest_queries_def)
next
  case (Some name)
  show ?thesis
  proof (cases "cfg_substitutions c")
    case None
    then show ?thesis using Some
      by (auto simp: runTest_queries_def Let_def read_query_file_def split: option.splits prod.splits)
  next
    case (Some xs)
    have "\<exists>r. substitute_queries xs s' = Some r"
      if "substitutions s' = substitutions s" "test_name s' = name" for s'
      using assms that \<open>cfg_name c = Some name\<close> Some
      by (intro substitute_queries_returns) (simp_all add: substitutions_brace_free_def)
    then show ?thesis using Some \<open>cfg_name c = Some name\<close>
      by (auto simp: runTest_queries_def Let_def read_query_file_def split: option.splits prod.splits if_splits)
  qed
qed

text \<open>Nothing is sent to the server while a test is validated.\<close>

lemma runTest_queries_trace:
  "runTest_queries c s = Some (r, s') \<Longrightarrow> trace s' = trace s"
  by (auto simp: runTest_queries_def Let_def read_query_file_def substitute_queries_def
      split: option.splits prod.splits if_splits)

lemma runTest_type_trace: "runTest_type c s = (r, s') \<Longrightarrow> trace s' = trace s"
  by (auto simp: runTest_type_def Let_def split: option.splits if_splits)

lemma runTest_stop_conditions_trace: "runTest_stop_conditions c s = (r, s') \<Longrightarrow> trace s' = trace s"
  by (auto simp: runTest_stop_conditions_def Let_def split: option.splits if_splits)

lemma runTest_metrics_trace: "runTest_metrics c s = (r, s') \<Longrightarrow> trace s' = trace s"
  by (auto simp: runTest_metrics_def Let_def split: option.splits list.splits if_splits)

lemma runTest_validate_trace:
  assumes "runTest_validate c s = Some (r, s')"
  shows "trace s' = trace s"
  using assms
  by (auto simp: runTest_validate_def split: option.splits prod.splits sum.splits if_splits
      dest!: runTest_queries_trace runTest_type_trace runTest_stop_conditions_trace runTest_metrics_trace)







lemma runTest_error:
  "runTest_validate c s = Some (Inl e, s') \<Longrightarrow> runTest env c s = Some (Inl e, s')"
  by (simp add: runTest_def)




lemma runTest_type_ok:
  "runTest_type c s = (None, s') \<Longrightarrow>
     cfg_type c = Some (if exec_type s' = Loop then ''loop'' else ''once'')"
  by (auto simp: runTest_type_def Let_def split: option.splits if_splits)

lemma runTest_stop_conditions_exec_type:
  "runTest_stop_conditions c s = (r, s') \<Longrightarrow> exec_type s' = exec_type s"
  by (auto simp: runTest_stop_conditions_def Let_def split: option.splits if_splits)

lemma runTest_metrics_ok:
  "runTest_metrics c s = (Inr metrics, s') \<Longrightarrow>
     exec_type s' = exec_type s \<and> set (cfg_metrics c) \<subseteq> set metrics
     \<and> main_metric s' \<in> set metrics"
  by (auto simp: runTest_metrics_def Let_def split: option.splits list.splits if_splits)

text \<open>What a test that passes validation is known to satisfy.\<close>

lemma runTest_validate_ok:
  assumes "runTest_validate c s = Some (Inr metrics, s')"
  shows "checkMetricsInput (exec_type s') metrics = None
         \<and> set (cfg_metrics c) \<subseteq> set metrics
         \<and> main_metric s' \<in> set metrics
         \<and> cfg_type c = Some (if exec_type s' = Loop then ''loop'' else ''once'')"
proof -
  from assms obtain s1 where q: "runTest_queries c s = Some (None, s1)"
    by (auto simp: runTest_validate_def split: option.splits prod.splits)
  obtain r2 s2 where t: "runTest_type c s1 = (r2, s2)" by (cases "runTest_type c s1")
  with assms q have r2: "r2 = None" by (auto simp: runTest_validate_def split: option.splits)
  obtain r3 s3 where sc: "runTest_stop_conditions c s2 = (r3, s3)"
    by (cases "runTest_stop_conditions c s2")
  with assms q t r2 have r3: "r3 = None" by (auto simp: runTest_validate_def split: option.splits)
  obtain r4 s4 where m: "runTest_metrics c s3 = (r4, s4)" by (cases "runTest_metrics c s3")
  with assms q t r2 sc r3 have r4: "r4 = Inr metrics" "s4 = s'"
    and chk: "(if metrics \<noteq> [] then checkMetricsInput (exec_type s') metrics else None) = None"
    by (auto simp: runTest_validate_def split: option.splits sum.splits if_splits)
  from runTest_metrics_ok m r4 have mk: "exec_type s' = exec_type s3"
    "set (cfg_metrics c) \<subseteq> set metrics" "main_metric s' \<in> set metrics" by auto
  from mk(3) have "metrics \<noteq> []" by auto
  with chk have "checkMetricsInput (exec_type s') metrics = None" by simp
  moreover from runTest_type_ok t r2 runTest_stop_conditions_exec_type[OF sc] mk(1)
  have "cfg_type c = Some (if exec_type s' = Loop then ''loop'' else ''once'')" by auto
  ultimately show ?thesis using mk by simp
qed

lemma checkMetricsInput_rejects:
  "(et = Loop \<and> m \<in> set metrics \<and> m \<in> set non_loop_metrics)
   \<or> (et = Once \<and> m \<in> set metrics \<and> m \<in> set loop_metrics)
   \<Longrightarrow> \<exists>msg. checkMetricsInput et metrics = Some (Exception msg BAD_ARGUMENTS)"
  by (auto simp: checkMetricsInput_def find_None_iff split: option.splits)

text \<open>
  A metric of the wrong kind stops the test before anything is sent, provided the
  expansion returns.
\<close>

lemma metric_mismatch_rejected:
  assumes "substitutions_brace_free c s"
    and "(cfg_type c = Some ''loop'' \<and> m \<in> set (cfg_metrics c) \<and> m \<in> set non_loop_metrics)
         \<or> (cfg_type c = Some ''once'' \<and> m \<in> set (cfg_metrics c) \<and> m \<in> set loop_metrics)"
  shows "\<exists>e s'. runTest env c s = Some (Inl e, s') \<and> trace s' = trace s"
proof -
  from runTest_queries_returns[OF assms(1)] have "runTest_validate c s \<noteq> None"
    by (auto simp: runTest_validate_def split: option.splits prod.splits sum.splits)
  then obtain r s' where v: "runTest_validate c s = Some (r, s')" by auto
  show ?thesis
  proof (cases r)
    case (Inl e)
    with v runTest_error[of c s e s' env] runTest_validate_trace[OF v] show ?thesis by auto
  next
    case (Inr metrics)
    from runTest_validate_ok[OF v[unfolded Inr]] assms(2)
    have "checkMetricsInput (exec_type s') metrics = None"
      and "(exec_type s' = Loop \<and> m \<in> set metrics \<and> m \<in> set non_loop_metrics)
           \<or> (exec_type s' = Once \<and> m \<in> set metrics \<and> m \<in> set loop_metrics)"
      by (auto split: if_splits) (metis ExecutionType.exhaust)+
    with checkMetricsInput_rejects show ?thesis by fastforce
  qed
qed

text \<open>
  Claim C6 says that a metric of the wrong kind for the execution type raises a
  configuration error before any run begins. The loop test below asks for
  \<^verbatim>\<open>max_rows_per_second\<close>; its substitution value is the variable's own token, so the
  replacement loop of the expansion, which runs before the metrics are looked at,
  never ends: runTest neither throws nor returns.
\<close>

theorem self_reference_never_validated:
  "cfg_type test_self_reference = Some ''loop''
   \<and> set (cfg_metrics test_self_reference) \<inter> set non_loop_metrics \<noteq> {}
   \<and> runTest env test_self_reference (initial lite) = None"
proof -
  have a: "find_str ''SELECT {a}'' (substitution_mask ''a'') \<noteq> None"
    by (simp add: substitution_mask_def)
  have "formatQueries ''SELECT {a}'' [(''a'', [''{a}''])] = None"
    using substitute_loop_self[OF a] a
    by (simp add: formatQueries_Cons occurs_def concat_opt_Cons substitution_mask_def)
  then have "runTest_queries test_self_reference (initial lite) = None"
    by (simp add: runTest_queries_def test_self_reference_def test_A_def read_query_file_def
          substitute_queries_def initial_def format_all_def concat_opt_Cons)
  then show ?thesis
    by (simp add: runTest_def runTest_validate_def test_self_reference_def test_A_def non_loop_metrics_def)
qed

section \<open>Running the queries\<close>

text \<open>What running queries changes in the state, and what it leaves alone.\<close>

lemma same_test_refl: "same_test s s"
  by (simp add: same_test_def)

lemma same_test_trans: "same_test s s' \<Longrightarrow> same_test s' s'' \<Longrightarrow> same_test s s''"
  by (simp add: same_test_def)

lemma touches_refl: "touches I s s"
  by (simp add: touches_def same_test_refl)

lemma touches_trans: "touches I s s' \<Longrightarrow> touches J s' s'' \<Longrightarrow> touches (I \<union> J) s s''"
  by (auto simp: touches_def intro: same_test_trans)

lemma touches_mono: "touches I s s' \<Longrightarrow> I \<subseteq> J \<Longrightarrow> touches J s s'"
  by (auto simp: touches_def)

lemma touches_same: "touches I s s' \<Longrightarrow> touches I s' s'' \<Longrightarrow> touches I s s''"
  using touches_trans[of I s s' I s''] by simp

lemma statistics_upd_touches: "touches {i} s (statistics_upd i f s)"
  by (simp add: touches_def same_test_def statistics_upd_def)

lemma stop_conditions_upd_touches: "touches I s (stop_conditions_upd i f s)"
  by (simp add: touches_def same_test_def stop_conditions_upd_def)

lemma statistics_upd_trace [simp]: "trace (statistics_upd i f s) = trace s"
  by (simp add: statistics_upd_def)

lemma stop_conditions_upd_trace [simp]: "trace (stop_conditions_upd i f s) = trace s"
  by (simp add: stop_conditions_upd_def)

lemma statistics_upd_gotSIGINT [simp]: "gotSIGINT (statistics_upd i f s) = gotSIGINT s"
  by (simp add: statistics_upd_def)

lemma stop_conditions_upd_gotSIGINT [simp]: "gotSIGINT (stop_conditions_upd i f s) = gotSIGINT s"
  by (simp add: stop_conditions_upd_def)

lemma statistics_upd_stop_conditions [simp]:
  "stop_conditions_by_run (statistics_upd i f s) = stop_conditions_by_run s"
  by (simp add: statistics_upd_def)

lemma check_touches:
  "checkFulfilledConditionsAndUpdate env pr i s = (cancelled, s') \<Longrightarrow>
     touches {i} s s' \<and> trace s' = trace s"
  by (auto simp: checkFulfilledConditionsAndUpdate_def Let_def interrupt_listener_check_def
        touches_def same_test_def statistics_upd_def stop_conditions_upd_def
      split: if_splits prod.splits)

lemma read_stream_touches:
  "touches {i} s (read_stream env prs i s) \<and> trace (read_stream env prs i s) = trace s"
proof (induction prs arbitrary: s)
  case Nil
  then show ?case by (simp add: touches_refl)
next
  case (Cons pr prs)
  obtain cancelled s' where c: "checkFulfilledConditionsAndUpdate env pr i s = (cancelled, s')"
    by (cases "checkFulfilledConditionsAndUpdate env pr i s")
  from check_touches[OF c] Cons[of s'] c show ?case
    by (auto intro: touches_same)
qed

lemma execute_touches:
  assumes "execute env q i s = (thrown, s')"
  shows "touches {i} s s'" and "trace s' = trace s @ [Invoke q]"
proof -
  let ?s1 = "(statistics_upd i (\<lambda>st. st\<lparr>last_query_was_cancelled := False, last_query_rows_read := 0,
                          last_query_bytes_read := 0\<rparr>) s)\<lparr>trace := trace s @ [Invoke q]\<rparr>"
  let ?s2 = "read_stream env (progress (stream_response env (invocations s) q)) i ?s1"
  have t1: "touches {i} s ?s1"
    by (simp add: touches_def same_test_def statistics_upd_def)
  from read_stream_touches[of i ?s1 env] have t2: "touches {i} ?s1 ?s2" "trace ?s2 = trace s @ [Invoke q]"
    by simp_all
  from t1 t2(1) have t3: "touches {i} s ?s2" by (rule touches_same)
  have s': "s' = ?s2 \<or> s' = statistics_upd i
                      (\<lambda>st. if \<not> last_query_was_cancelled st then updateQueryInfo st else st) ?s2"
    using assms by (auto simp: execute_def Let_def split: option.splits)
  then show "touches {i} s s'"
    using t3 statistics_upd_touches[of i ?s2] by (auto intro: touches_same)
  from s' t2(2) show "trace s' = trace s @ [Invoke q]" by auto
qed

lemma iteration_events_0 [simp]: "iteration_events q k 0 = []"
  by (simp add: iteration_events_def)

lemma iteration_events_Suc:
  "iteration_events q k (Suc n) = ReportIterations k # Invoke q # iteration_events q (Suc k) n"
  by (simp add: iteration_events_def upt_conv_Cons)

text \<open>The shape of the log that the loop leaves, and why the loop has ended.\<close>

lemma loop_iterations_result:
  assumes "loop_iterations env q i k s = Some (thrown, s')"
  shows "touches {i} s s'
         \<and> (\<exists>n. (trace s' = trace s @ iteration_events q k n \<and> (gotSIGINT s' \<or> thrown \<noteq> None))
              \<or> (trace s' = trace s @ iteration_events q k n @ [ReportIterations (k + n)]
                  \<and> areFulfilled (stop_conditions_by_run s' ! i) \<and> thrown = None))"
proof -
  let ?P = "\<lambda>(env' :: Surroundings) q i k s y.
      touches {i} s (snd y)
         \<and> (\<exists>n. (trace (snd y) = trace s @ iteration_events q k n \<and> (gotSIGINT (snd y) \<or> fst y \<noteq> None))
              \<or> (trace (snd y) = trace s @ iteration_events q k n @ [ReportIterations (k + n)]
                  \<and> areFulfilled (stop_conditions_by_run (snd y) ! i) \<and> fst y = None))"
  have "?P env q i k s (thrown, s')"
  proof (rule loop_iterations.raw_induct[where P = ?P, OF _ assms])
    fix f :: "Surroundings \<Rightarrow> Query \<Rightarrow> nat \<Rightarrow> nat \<Rightarrow> PerformanceTest
                \<Rightarrow> ((string \<times> string) option \<times> PerformanceTest) option"
      and env q i k s y
    assume IH: "\<And>env q i k s y. f env q i k s = Some y \<Longrightarrow> ?P env q i k s y"
      and step: "(if gotSIGINT s then Some (None, s)
        else let s1 = stop_conditions_upd i (report_value Iterations k)
                        (s\<lparr>trace := trace s @ [ReportIterations k]\<rparr>)
             in if areFulfilled (stop_conditions_by_run s1 ! i) then Some (None, s1)
                else (case execute env q i s1 of
                        (Some e, s2) \<Rightarrow> Some (Some e, s2)
                      | (None, s2) \<Rightarrow> f env q i (Suc k) s2)) = Some y"
    let ?s1 = "stop_conditions_upd i (report_value Iterations k)
                        (s\<lparr>trace := trace s @ [ReportIterations k]\<rparr>)"
    have t1: "touches {i} s ?s1" "trace ?s1 = trace s @ [ReportIterations k]"
      by (simp_all add: touches_def same_test_def stop_conditions_upd_def)
    show "?P env q i k s y"
    proof (cases "gotSIGINT s")
      case True
      with step have "y = (None, s)" by simp
      with True show ?thesis by (auto simp: touches_refl intro: exI[of _ 0])
    next
      case False
      show ?thesis
      proof (cases "areFulfilled (stop_conditions_by_run ?s1 ! i)")
        case True
        with step False have y: "y = (None, ?s1)" by (simp add: Let_def)
        have "trace ?s1 = trace s @ iteration_events q k 0 @ [ReportIterations (k + 0)]"
          using t1(2) by simp
        with y True t1(1) show ?thesis by (auto simp del: iteration_events_0 intro!: exI[of _ 0])
      next
        case nf: False
        obtain r s2 where e: "execute env q i ?s1 = (r, s2)" by (cases "execute env q i ?s1")
        from execute_touches[OF e] t1 have t2: "touches {i} s s2"
          "trace s2 = trace s @ [ReportIterations k, Invoke q]"
          by (auto intro: touches_same)
        show ?thesis
        proof (cases r)
          case (Some ex)
          with step False nf e have y: "y = (Some ex, s2)" by (simp add: Let_def)
          have "trace s2 = trace s @ iteration_events q k (Suc 0)"
            using t2(2) by (simp add: iteration_events_Suc)
          with y t2(1) show ?thesis by (auto intro!: exI[of _ "Suc 0"])
        next
          case None
          with step False nf e have "f env q i (Suc k) s2 = Some y" by (simp add: Let_def)
          from IH[OF this] obtain n where n: "touches {i} s2 (snd y)"
            "(trace (snd y) = trace s2 @ iteration_events q (Suc k) n \<and> (gotSIGINT (snd y) \<or> fst y \<noteq> None))
              \<or> (trace (snd y) = trace s2 @ iteration_events q (Suc k) n @ [ReportIterations (Suc k + n)]
                  \<and> areFulfilled (stop_conditions_by_run (snd y) ! i) \<and> fst y = None)"
            by blast
          from t2(1) n(1) have "touches {i} s (snd y)" by (rule touches_same)
          moreover from n(2) t2(2)
          have "(trace (snd y) = trace s @ iteration_events q k (Suc n) \<and> (gotSIGINT (snd y) \<or> fst y \<noteq> None))
              \<or> (trace (snd y) = trace s @ iteration_events q k (Suc n) @ [ReportIterations (k + Suc n)]
                  \<and> areFulfilled (stop_conditions_by_run (snd y) ! i) \<and> fst y = None)"
            by (auto simp: iteration_events_Suc)
          ultimately show ?thesis by blast
        qed
      qed
    qed
  qed
  then show ?thesis by simp
qed

lemma try_block_result:
  assumes "try_block env (q, i) s = Some (thrown, s')"
  shows "touches {i} s s'"
    and "exec_type s = Once \<Longrightarrow> trace s' = trace s @ [Invoke q]"
    and "exec_type s = Loop \<Longrightarrow>
           \<exists>n. (trace s' = trace s @ Invoke q # iteration_events q 1 n
                  \<and> (gotSIGINT s' \<or> thrown \<noteq> None))
              \<or> (trace s' = trace s @ Invoke q # iteration_events q 1 n @ [ReportIterations (Suc n)]
                  \<and> areFulfilled (stop_conditions_by_run s' ! i) \<and> thrown = None)"
proof -
  obtain r s1 where e: "execute env q i s = (r, s1)" by (cases "execute env q i s")
  note t1 = execute_touches[OF e]
  from t1(1) have et: "exec_type s1 = exec_type s" by (simp add: touches_def same_test_def)
  have "touches {i} s s'
        \<and> (exec_type s = Once \<longrightarrow> trace s' = trace s @ [Invoke q])
        \<and> (exec_type s = Loop \<longrightarrow>
           (\<exists>n. (trace s' = trace s @ Invoke q # iteration_events q 1 n
                  \<and> (gotSIGINT s' \<or> thrown \<noteq> None))
              \<or> (trace s' = trace s @ Invoke q # iteration_events q 1 n @ [ReportIterations (Suc n)]
                  \<and> areFulfilled (stop_conditions_by_run s' ! i) \<and> thrown = None)))"
  proof (cases r)
    case (Some ex)
    with assms e have "thrown = Some ex" "s' = s1" by (simp_all add: try_block_def)
    with t1 show ?thesis by (auto intro!: exI[of _ 0])
  next
    case None
    show ?thesis
    proof (cases "exec_type s")
      case Once
      with assms e None et have "s' = s1" by (simp add: try_block_def)
      with t1 Once show ?thesis by simp
    next
      case Loop
      with assms e None et have "loop_iterations env q i 1 s1 = Some (thrown, s')"
        by (simp add: try_block_def)
      from loop_iterations_result[OF this] t1 Loop show ?thesis
        by (auto intro: touches_same)
    qed
  qed
  then show "touches {i} s s'"
    and "exec_type s = Once \<Longrightarrow> trace s' = trace s @ [Invoke q]"
    and "exec_type s = Loop \<Longrightarrow>
           \<exists>n. (trace s' = trace s @ Invoke q # iteration_events q 1 n
                  \<and> (gotSIGINT s' \<or> thrown \<noteq> None))
              \<or> (trace s' = trace s @ Invoke q # iteration_events q 1 n @ [ReportIterations (Suc n)]
                  \<and> areFulfilled (stop_conditions_by_run s' ! i) \<and> thrown = None)"
    by blast+
qed


lemma try_block_head:
  assumes "try_block env (q, i) s = Some (thrown, s')"
  shows "\<exists>tl_ev. trace s' = trace s @ Invoke q # tl_ev"
proof (cases "exec_type s")
  case Loop
  from try_block_result(3)[OF assms Loop] show ?thesis by auto
next
  case Once
  from try_block_result(2)[OF assms Once] show ?thesis by simp
qed

text \<open>The catch and the ready mark add nothing to the log.\<close>

lemma run_slot_result:
  assumes "run_slot env (q, i) s = Some s'"
  shows "touches {i} s s'"
    and "\<exists>thrown s1. try_block env (q, i) (statistics_upd i stats_clear s) = Some (thrown, s1)
           \<and> trace s' = trace s1 \<and> gotSIGINT s' = gotSIGINT s1
           \<and> stop_conditions_by_run s' = stop_conditions_by_run s1"
proof -
  let ?s0 = "statistics_upd i stats_clear s"
  from assms obtain thrown s1 where tb: "try_block env (q, i) ?s0 = Some (thrown, s1)"
    by (auto simp: run_slot_def split: option.splits)
  let ?s2 = "case thrown of None \<Rightarrow> s1
             | Some (what, displayText) \<Rightarrow>
                 statistics_upd i (\<lambda>st. st\<lparr>exception := what @ '', '' @ displayText\<rparr>) s1"
  have s': "s' = (if \<not> gotSIGINT ?s2 then statistics_upd i (\<lambda>st. st\<lparr>ready := True\<rparr>) ?s2 else ?s2)"
    using assms tb by (cases thrown) (auto simp: run_slot_def Let_def)
  have t0: "touches {i} s ?s0" by (rule statistics_upd_touches)
  have t2: "touches {i} s1 ?s2" by (auto split: option.splits simp: touches_refl statistics_upd_touches)
  have t3: "touches {i} ?s2 s'" unfolding s' by (simp add: touches_refl statistics_upd_touches)
  from t0 try_block_result(1)[OF tb] t2 t3 show "touches {i} s s'"
    by (blast intro: touches_same)
  have "trace s' = trace s1 \<and> gotSIGINT s' = gotSIGINT s1
          \<and> stop_conditions_by_run s' = stop_conditions_by_run s1"
    unfolding s' by (auto split: option.splits)
  with tb show "\<exists>thrown s1. try_block env (q, i) (statistics_upd i stats_clear s) = Some (thrown, s1)
           \<and> trace s' = trace s1 \<and> gotSIGINT s' = gotSIGINT s1
           \<and> stop_conditions_by_run s' = stop_conditions_by_run s1"
    by blast
qed

lemma run_slot_head:
  assumes "run_slot env (q, i) s = Some s'"
  shows "\<exists>tl_ev. trace s' = trace s @ Invoke q # tl_ev"
proof -
  from run_slot_result(2)[OF assms] obtain thrown s1
    where tb: "try_block env (q, i) (statistics_upd i stats_clear s) = Some (thrown, s1)"
      and tr: "trace s' = trace s1" by blast
  from try_block_head[OF tb] tr show ?thesis by simp
qed

lemma invoked_in_order_Nil: "invoked_in_order [] []"
  by (simp add: invoked_in_order_def)

lemma invoked_in_order_Cons:
  "invoked_in_order qs events \<Longrightarrow> invoked_in_order (q # qs) (Invoke q # tl_ev @ events)"
  unfolding invoked_in_order_def
proof -
  assume "\<exists>segments. events = concat segments
        \<and> list_all2 (\<lambda>query segment. \<exists>tl_ev. segment = Invoke query # tl_ev) qs segments"
  then obtain segments where "events = concat segments"
    "list_all2 (\<lambda>query segment. \<exists>tl_ev. segment = Invoke query # tl_ev) qs segments" by blast
  then have "Invoke q # tl_ev @ events = concat ((Invoke q # tl_ev) # segments)
     \<and> list_all2 (\<lambda>query segment. \<exists>tl_ev. segment = Invoke query # tl_ev) (q # qs) ((Invoke q # tl_ev) # segments)"
    by simp
  then show "\<exists>segments. Invoke q # tl_ev @ events = concat segments
        \<and> list_all2 (\<lambda>query segment. \<exists>tl_ev. segment = Invoke query # tl_ev) (q # qs) segments"
    by blast
qed

lemma invoked_in_order_append:
  assumes "invoked_in_order qs events" and "invoked_in_order qs' events'"
  shows "invoked_in_order (qs @ qs') (events @ events')"
proof -
  from assms obtain segs segs' where
    a: "events = concat segs" "list_all2 (\<lambda>query segment. \<exists>tl_ev. segment = Invoke query # tl_ev) qs segs"
    and b: "events' = concat segs'" "list_all2 (\<lambda>query segment. \<exists>tl_ev. segment = Invoke query # tl_ev) qs' segs'"
    unfolding invoked_in_order_def by blast
  have "events @ events' = concat (segs @ segs')" using a(1) b(1) by simp
  moreover have "list_all2 (\<lambda>query segment. \<exists>tl_ev. segment = Invoke query # tl_ev) (qs @ qs') (segs @ segs')"
    using a(2) b(2) by (rule list_all2_appendI)
  ultimately show ?thesis unfolding invoked_in_order_def by blast
qed

text \<open>One pass: every query of the pass is sent, whatever happens to the ones before.\<close>

lemma runQueries_result:
  "runQueries env qis s = Some s' \<Longrightarrow>
     touches (snd ` set qis) s s'
     \<and> (\<exists>events. trace s' = trace s @ events \<and> invoked_in_order (map fst qis) events)"
proof (induction qis arbitrary: s)
  case Nil
  then show ?case by (simp add: touches_refl invoked_in_order_Nil)
next
  case (Cons qi qis)
  obtain q i where qi: "qi = (q, i)" by (cases qi)
  from Cons.prems obtain s1 where rs: "run_slot env (q, i) s = Some s1"
    and rq: "runQueries env qis s1 = Some s'"
    by (auto simp: qi split: option.splits)
  from run_slot_head[OF rs] obtain tl_ev where tl_ev: "trace s1 = trace s @ Invoke q # tl_ev" by blast
  from Cons.IH[OF rq] obtain events where ev: "touches (snd ` set qis) s1 s'"
    "trace s' = trace s1 @ events" "invoked_in_order (map fst qis) events" by blast
  from touches_trans[OF run_slot_result(1)[OF rs] ev(1)]
  have "touches (snd ` set (qi # qis)) s s'" by (simp add: qi)
  moreover from tl_ev ev(2) have "trace s' = trace s @ (Invoke q # tl_ev @ events)" by simp
  moreover from invoked_in_order_Cons[OF ev(3)]
  have "invoked_in_order (map fst (qi # qis)) (Invoke q # tl_ev @ events)" by (simp add: qi)
  ultimately show ?case by blast
qed

lemma fold_reset_touches:
  "touches {} s (fold (\<lambda>qi. stop_conditions_upd (snd qi) reset) qis s)
   \<and> trace (fold (\<lambda>qi. stop_conditions_upd (snd qi) reset) qis s) = trace s
   \<and> gotSIGINT (fold (\<lambda>qi. stop_conditions_upd (snd qi) reset) qis s) = gotSIGINT s"
proof (induction qis arbitrary: s)
  case Nil
  then show ?case by (simp add: touches_refl)
next
  case (Cons qi qis)
  from stop_conditions_upd_touches[of "{}" s "snd qi" reset] Cons[of "stop_conditions_upd (snd qi) reset s"]
  show ?case by (auto intro: touches_same)
qed

lemma launch_indexes_Cons:
  "launch_indexes n (l # ls) = {l * n + query_index | query_index. query_index < n} \<union> launch_indexes n ls"
  by (auto simp: launch_indexes_def)

text \<open>
  All launches: without an interrupt every query of every launch is sent; only the
  statistics of the launches' own runs change.
\<close>

lemma launches_result:
  "launches env ls s = Some s' \<Longrightarrow>
     touches (launch_indexes (length (queries s)) ls) s s'
     \<and> (\<not> gotSIGINT s' \<longrightarrow>
          (\<exists>events. trace s' = trace s @ events
             \<and> invoked_in_order (concat (map (\<lambda>l. queries s) ls)) events))"
proof (induction ls arbitrary: s)
  case Nil
  then show ?case by (simp add: touches_refl invoked_in_order_Nil)
next
  case (Cons l ls)
  let ?n = "length (queries s)"
  let ?qis = "map (\<lambda>query_index. (queries s ! query_index, l * ?n + query_index)) [0..<?n]"
  let ?s1 = "fold (\<lambda>qi. stop_conditions_upd (snd qi) reset) ?qis s"
  let ?s2 = "if fst (interrupt_listener_check env ?s1)
             then (snd (interrupt_listener_check env ?s1))\<lparr>gotSIGINT := True\<rparr>
             else snd (interrupt_listener_check env ?s1)"
  from fold_reset_touches[of s ?qis] have t1: "touches {} s ?s1" "trace ?s1 = trace s" by simp_all
  have t2: "touches {} ?s1 ?s2" "trace ?s2 = trace ?s1"
    by (simp_all add: interrupt_listener_check_def touches_def same_test_def)
  from t1 t2 have t3: "touches {} s ?s2" "trace ?s2 = trace s"
    by (auto intro: touches_same)
  have idx: "snd ` set ?qis = {l * ?n + query_index | query_index. query_index < ?n}"
    by (auto simp: image_iff)
  have qs: "map fst ?qis = queries s"
    by (simp add: comp_def map_nth)
  show ?case
  proof (cases "gotSIGINT ?s2")
    case True
    with Cons.prems have "s' = ?s2" by (simp add: Let_def)
    with True t3 show ?thesis by (auto intro: touches_mono)
  next
    case False
    with Cons.prems obtain s3 where rq: "runQueries env ?qis ?s2 = Some s3"
      and rest: "launches env ls s3 = Some s'"
      by (auto simp: Let_def split: option.splits)
    from runQueries_result[OF rq] obtain ev1 where r1: "touches (snd ` set ?qis) ?s2 s3"
      "trace s3 = trace ?s2 @ ev1" "invoked_in_order (map fst ?qis) ev1" by blast
    from touches_trans[OF t3(1) r1(1)] have t4: "touches (snd ` set ?qis) s s3" by simp
    then have q3: "queries s3 = queries s" by (simp add: touches_def same_test_def)
    from Cons.IH[OF rest] q3 have r2: "touches (launch_indexes ?n ls) s3 s'"
      "\<not> gotSIGINT s' \<longrightarrow> (\<exists>events. trace s' = trace s3 @ events
             \<and> invoked_in_order (concat (map (\<lambda>l. queries s) ls)) events)"
      by simp_all
    from touches_trans[OF t4 r2(1)] idx
    have "touches (launch_indexes ?n (l # ls)) s s'" by (simp add: launch_indexes_Cons)
    moreover have "\<exists>events. trace s' = trace s @ events
             \<and> invoked_in_order (concat (map (\<lambda>l. queries s) (l # ls))) events"
      if "\<not> gotSIGINT s'"
    proof -
      from r2(2) that obtain ev2 where ev2: "trace s' = trace s3 @ ev2"
        "invoked_in_order (concat (map (\<lambda>l. queries s) ls)) ev2" by blast
      from r1(2) t3(2) ev2(1) have "trace s' = trace s @ (ev1 @ ev2)" by simp
      moreover from invoked_in_order_append[OF r1(3) ev2(2)] qs
      have "invoked_in_order (concat (map (\<lambda>l. queries s) (l # ls))) (ev1 @ ev2)" by simp
      ultimately show ?thesis by blast
    qed
    ultimately show ?thesis by blast
  qed
qed









section \<open>The main metric\<close>



section \<open>Selection of tests\<close>

text \<open>A configuration without a name matches no name pattern, whatever the patterns.\<close>

lemma nameless_never_matches_regexp:
  "cfg_name config = None \<Longrightarrow> \<not> matches_filter regex_search Name_regexp vals config"
  by (simp add: matches_filter_def checker_def)

text \<open>It matches a list of names exactly when the empty name is in the list.\<close>

lemma nameless_matches_name:
  "cfg_name config = None \<Longrightarrow> matches_filter regex_search Name vals config = ([] \<in> set vals)"
  by (auto simp: matches_filter_def checker_def)

text \<open>
  Claim C7 says that a specification without a name never matches a name filter nor a
  name-pattern filter. For the name filter the code compares
  \<^verbatim>\<open>getString("name", "")\<close> with the values, so the nameless specification matches the
  value list that holds the empty string: the skip pass drops it and the keep pass
  keeps it.
\<close>

theorem nameless_matches_empty_name:
  "cfg_name test_nameless = None
   \<and> matches_filter regex_search Name [''''] test_nameless
   \<and> removeConfigurationsIf regex_search [test_nameless] Name [''''] False = []
   \<and> removeConfigurationsIf regex_search [test_nameless] Name [''''] True = [test_nameless]"
  by (simp add: matches_filter_def removeConfigurationsIf_def checker_def test_nameless_def)

section \<open>Reports\<close>




text \<open>
  Claim C5 says that a run is in the report only if it reached the ready state, and
  that runs never started after an interrupt are left out. The statistics vector is
  only resized between tests, so a run of test B inherits the \<open>ready\<close> flag that the
  run of test A at the same index has set: with the interrupt arriving between the two
  tests, the only query ever sent is that of A, and yet the report of B lists a run.
\<close>

theorem stale_ready_reported:
  "(case run_tests interrupt_after_first [test_A, test_B] [] (initial False) of
     Some (Inr outputs, s) \<Rightarrow>
       map (\<lambda>output. case output of
                        Json r \<Rightarrow> (rep_test_name r, map ri_query (rep_runs r))
                      | Lite l \<Rightarrow> ([], [])) outputs
          = [(''A'', [''SELECT 1'']), (''B'', [''SELECT 2''])]
       \<and> trace s = [Invoke ''SELECT 1'']
    | _ \<Rightarrow> False)"
  by code_simp

section \<open>The report of the first test of a process\<close>

lemma length_filter_sum:
  "length (filter P xs) = (\<Sum>i<length xs. if P (xs ! i) then 1 else 0)"
proof (induction xs rule: rev_induct)
  case Nil
  then show ?case by simp
next
  case (snoc x xs)
  have "(\<Sum>i<length xs. if P ((xs @ [x]) ! i) then 1 else 0 :: nat)
          = (\<Sum>i<length xs. if P (xs ! i) then 1 else 0)"
    by (rule sum.cong) (simp_all add: nth_append)
  with snoc show ?case by simp
qed

lemma length_concat_if:
  "length (concat (map (\<lambda>l. if \<not> P l then [] else [f l]) [0..<T]))
     = (\<Sum>l<T. if P l then 1 else 0)"
  by (induction T) simp_all

lemma length_concat_upt:
  "length (concat (map f [0..<n])) = (\<Sum>i<n. length (f i))"
  by (induction n) simp_all

lemma sum_regroup:
  fixes n T :: nat and b :: "nat \<Rightarrow> nat"
  shows "(\<Sum>qi<n. \<Sum>l<T. b (l * n + qi)) = (\<Sum>i<T * n. b i)"
proof -
  have "(\<Sum>qi<n. \<Sum>l<T. b (l * n + qi)) = (\<Sum>l<T. \<Sum>qi<n. b (l * n + qi))"
    by (rule sum.swap)
  also have "\<dots> = (\<Sum>l<T. sum b {l * n..<l * n + n})"
  proof (rule sum.cong[OF refl])
    fix l
    have "sum b {0 + l * n..<n + l * n} = (\<Sum>qi = 0..<n. b (qi + l * n))"
      by (rule sum.shift_bounds_nat_ivl)
    then show "(\<Sum>qi<n. b (l * n + qi)) = sum b {l * n..<l * n + n}"
      by (simp add: add.commute lessThan_atLeast0)
  qed
  also have "\<dots> = sum b {..<T * n}"
    by (rule sum.nat_group)
  finally show ?thesis .
qed

text \<open>With a statistics vector of the right length the report has one run per ready flag.\<close>

lemma report_length:
  assumes "length (statistics_by_run s) = times_to_run s * length (queries s)"
  shows "length (rep_runs (constructTotalInfo metrics s)) = readies s"
proof -
  let ?n = "length (queries s)" and ?T = "times_to_run s" and ?v = "statistics_by_run s"
  let ?b = "\<lambda>i. if ready (?v ! i) then 1 else 0 :: nat"
  have "length (rep_runs (constructTotalInfo metrics s))
          = (\<Sum>qi<?n. \<Sum>l<?T. ?b (l * ?n + qi))"
    by (auto simp: constructTotalInfo_def length_concat_upt intro!: sum.cong)
  also have "\<dots> = (\<Sum>i<?T * ?n. ?b i)" by (rule sum_regroup)
  also have "\<dots> = readies s"
    by (simp add: readies_def length_filter_sum assms)
  finally show ?thesis .
qed

lemma sent_for_ready_refl: "sent_for_ready s s"
  by (simp add: sent_for_ready_def)

lemma sent_for_ready_trans:
  "sent_for_ready s s' \<Longrightarrow> sent_for_ready s' s'' \<Longrightarrow> sent_for_ready s s''"
  by (simp add: sent_for_ready_def)

lemma filter_update_le:
  "length (filter P (xs[i := x])) \<le> Suc (length (filter P xs))"
proof (induction xs arbitrary: i)
  case Nil
  then show ?case by simp
next
  case (Cons a xs)
  show ?case
  proof (cases i)
    case 0
    then show ?thesis by simp
  next
    case (Suc j)
    with Cons[of j] show ?thesis by simp
  qed
qed

lemma touches_readies:
  assumes "touches {i} s s'"
  shows "readies s' \<le> Suc (readies s)"
proof -
  let ?xs = "statistics_by_run s" and ?ys = "statistics_by_run s'"
  from assms have len: "length ?ys = length ?xs" and eq: "\<And>j. j \<noteq> i \<Longrightarrow> ?ys ! j = ?xs ! j"
    by (simp_all add: touches_def same_test_def)
  have "?ys = ?xs[i := ?ys ! i]"
  proof (rule nth_equalityI)
    show "length ?ys = length (?xs[i := ?ys ! i])" using len by simp
  next
    fix j assume "j < length ?ys"
    then show "?ys ! j = ?xs[i := ?ys ! i] ! j"
      using len eq[of j] by (cases "j = i") simp_all
  qed
  then have "readies s' = length (filter ready (?xs[i := ?ys ! i]))"
    by (simp add: readies_def)
  also have "\<dots> \<le> Suc (readies s)" unfolding readies_def by (rule filter_update_le)
  finally show ?thesis .
qed

lemma touches_none_readies:
  assumes "touches {} s s'"
  shows "readies s' = readies s"
proof -
  from assms have "length (statistics_by_run s') = length (statistics_by_run s)"
    and "\<And>j. statistics_by_run s' ! j = statistics_by_run s ! j"
    by (simp_all add: touches_def same_test_def)
  then have "statistics_by_run s' = statistics_by_run s"
    by (intro nth_equalityI) simp_all
  then show ?thesis by (simp add: readies_def)
qed

lemma invocations_append:
  "trace s' = trace s @ Invoke q # tl_ev \<Longrightarrow> Suc (invocations s) \<le> invocations s'"
  by (simp add: invocations_def)

lemma run_slot_sent:
  assumes "run_slot env (q, i) s = Some s'"
  shows "sent_for_ready s s'"
proof -
  from run_slot_head[OF assms] obtain tl_ev where "trace s' = trace s @ Invoke q # tl_ev" by blast
  from invocations_append[OF this] touches_readies[OF run_slot_result(1)[OF assms]]
  show ?thesis by (simp add: sent_for_ready_def)
qed

lemma runQueries_sent:
  "runQueries env qis s = Some s' \<Longrightarrow> sent_for_ready s s'"
proof (induction qis arbitrary: s)
  case Nil
  then show ?case by (simp add: sent_for_ready_refl)
next
  case (Cons qi qis)
  obtain q i where qi: "qi = (q, i)" by (cases qi)
  from Cons.prems obtain s1 where rs: "run_slot env (q, i) s = Some s1"
    and rq: "runQueries env qis s1 = Some s'"
    by (auto simp: qi split: option.splits)
  from run_slot_sent[OF rs] Cons.IH[OF rq] show ?case by (rule sent_for_ready_trans)
qed

lemma launches_sent:
  "launches env ls s = Some s' \<Longrightarrow> sent_for_ready s s'"
proof (induction ls arbitrary: s)
  case Nil
  then show ?case by (simp add: sent_for_ready_refl)
next
  case (Cons l ls)
  let ?n = "length (queries s)"
  let ?qis = "map (\<lambda>query_index. (queries s ! query_index, l * ?n + query_index)) [0..<?n]"
  let ?s1 = "fold (\<lambda>qi. stop_conditions_upd (snd qi) reset) ?qis s"
  let ?s2 = "if fst (interrupt_listener_check env ?s1)
             then (snd (interrupt_listener_check env ?s1))\<lparr>gotSIGINT := True\<rparr>
             else snd (interrupt_listener_check env ?s1)"
  from fold_reset_touches[of s ?qis] have t1: "touches {} s ?s1" "trace ?s1 = trace s" by simp_all
  have t2: "touches {} ?s1 ?s2" "trace ?s2 = trace ?s1"
    by (simp_all add: interrupt_listener_check_def touches_def same_test_def)
  from t1 t2 have t3: "touches {} s ?s2" "trace ?s2 = trace s"
    by (auto intro: touches_same)
  from touches_none_readies[OF t3(1)] t3(2) have p: "sent_for_ready s ?s2"
    by (simp add: sent_for_ready_def invocations_def)
  show ?case
  proof (cases "gotSIGINT ?s2")
    case True
    with Cons.prems have "s' = ?s2" by (simp add: Let_def)
    with p show ?thesis by simp
  next
    case False
    with Cons.prems obtain s3 where rq: "runQueries env ?qis ?s2 = Some s3"
      and rest: "launches env ls s3 = Some s'"
      by (auto simp: Let_def split: option.splits)
    from p runQueries_sent[OF rq] have "sent_for_ready s s3" by (rule sent_for_ready_trans)
    from this Cons.IH[OF rest] show ?thesis by (rule sent_for_ready_trans)
  qed
qed

lemma runTest_queries_statistics:
  "runTest_queries c s = Some (r, s') \<Longrightarrow> statistics_by_run s' = statistics_by_run s"
  by (auto simp: runTest_queries_def Let_def read_query_file_def substitute_queries_def
      split: option.splits prod.splits if_splits)

lemma runTest_type_statistics:
  "runTest_type c s = (r, s') \<Longrightarrow> statistics_by_run s' = statistics_by_run s"
  by (auto simp: runTest_type_def Let_def split: option.splits if_splits)

lemma runTest_stop_conditions_statistics:
  "runTest_stop_conditions c s = (r, s') \<Longrightarrow> statistics_by_run s' = statistics_by_run s"
  by (auto simp: runTest_stop_conditions_def Let_def split: option.splits if_splits)

lemma runTest_metrics_statistics:
  "runTest_metrics c s = (r, s') \<Longrightarrow> statistics_by_run s' = statistics_by_run s"
  by (auto simp: runTest_metrics_def Let_def split: option.splits list.splits if_splits)

lemma runTest_validate_statistics:
  assumes "runTest_validate c s = Some (r, s')"
  shows "statistics_by_run s' = statistics_by_run s"
  using assms
  by (auto simp: runTest_validate_def split: option.splits prod.splits sum.splits if_splits
      dest!: runTest_queries_statistics runTest_type_statistics
        runTest_stop_conditions_statistics runTest_metrics_statistics)

text \<open>
  In the first test that an object runs, the report has no more runs than queries have
  been sent for the test.
\<close>

lemma first_test_report:
  assumes "statistics_by_run s = []" and "runTest env c s = Some (Inr (Json rep), s')"
  shows "length (rep_runs rep) + invocations s \<le> invocations s'"
proof -
  from assms(2) obtain metrics s1 where val: "runTest_validate c s = Some (Inr metrics, s1)"
    by (auto simp: runTest_def split: option.splits prod.splits sum.splits)
  let ?k = "times_to_run s1 * length (queries s1)"
  let ?s2 = "s1\<lparr>statistics_by_run := resize ?k (statistics_by_run s1)\<rparr>"
  from assms(2) val have la: "launches env [0..<times_to_run s1] ?s2 = Some s'"
    and rep: "rep = constructTotalInfo metrics s'"
    by (auto simp: runTest_def split: option.splits if_splits)
  from runTest_validate_statistics[OF val] assms(1) have st: "statistics_by_run ?s2 = replicate ?k TestStats_default"
    by (simp add: resize_def)
  then have r2: "readies ?s2 = 0" by (simp add: readies_def TestStats_default_def)
  have i2: "invocations ?s2 = invocations s"
    using runTest_validate_trace[OF val] by (simp add: invocations_def)
  from launches_result[OF la] have same: "same_test ?s2 s'" by (simp add: touches_def)
  with st have "length (statistics_by_run s') = times_to_run s' * length (queries s')"
    by (simp add: same_test_def)
  from report_length[OF this] rep have "length (rep_runs rep) = readies s'" by simp
  with launches_sent[OF la] r2 i2 show ?thesis by (simp add: sent_for_ready_def)
qed


end
